theory Spec2Isabelle
  imports Main
begin

section \<open>The widget tree of src/widget.ts\<close>

text \<open>
  The widget system keeps a logical tree of \<open>Widget\<close> objects beside the DOM tree of their
  elements. Objects are mutable and shared in the source, so the model is an explicit store:
  DOM elements and widgets are identified by numbers, every function takes the state and
  returns the new one, and a \<open>throw\<close> is the first component of the result.

  Recursion over the widget tree and the loops over DOM ancestors are bounded by a fuel
  argument; a computation that does not finish within the bound ends with \<open>OutOfFuel\<close>,
  which propagates like an exception (the deep recursion of the source ends in a
  \<open>RangeError\<close> in the same way).

  The overridable methods of \<open>Widget\<close> (\<open>wasShown\<close>, \<open>willHide\<close>, \<open>onResize\<close>,
  \<open>onLayout\<close>, \<open>onDetach\<close>, \<open>childWasDetached\<close>) are a parameter of the model: a hook
  is any function on the state that may also throw. Every hook call, every assignment to
  \<open>isShowingInternal\<close> made by a notification pass and every recomputation of the
  constraints made by \<open>invalidateConstraints\<close> is recorded in a ghost trace.
\<close>

subsection \<open>Data\<close>

type_synonym elem = nat
type_synonym wid = nat

datatype error =
    Error string
  | DOMException string
  | OutOfFuel

text \<open>
  Modelled from the spec: \<open>Geometry.js\<close> (the classes \<open>Size\<close> and \<open>Constraints\<close>) is not
  among the sources. They are value objects with a width and a height, a minimum and a
  preferred size, equality, maximum and sum. \<open>new Constraints()\<close> is the zero constraint,
  \<open>new Constraints(m)\<close> takes \<open>m\<close> for both sizes and \<open>new Constraints(m, p)\<close> holds
  the minimum \<open>m\<close> and the preferred size \<open>p\<close>.
\<close>

record Size =
  width :: int
  height :: int

record Constraints =
  minimum :: Size
  preferred :: Size

definition zeroSize :: Size where
  "zeroSize = \<lparr>width = 0, height = 0\<rparr>"

definition zeroConstraints :: Constraints where
  "zeroConstraints = \<lparr>minimum = zeroSize, preferred = zeroSize\<rparr>"

definition constraintsOfSize :: "Size \<Rightarrow> Constraints" where
  "constraintsOfSize m = \<lparr>minimum = m, preferred = m\<rparr>"

definition isEqual :: "Constraints \<Rightarrow> Constraints option \<Rightarrow> bool" where
  "isEqual c other = (case other of None \<Rightarrow> False | Some d \<Rightarrow> c = d)"

definition widthToMax :: "Constraints \<Rightarrow> Constraints \<Rightarrow> Constraints" where
  "widthToMax c d =
     \<lparr>minimum = (minimum c)\<lparr>width := max (width (minimum c)) (width (minimum d))\<rparr>,
      preferred = (preferred c)\<lparr>width := max (width (preferred c)) (width (preferred d))\<rparr>\<rparr>"

definition heightToMax :: "Constraints \<Rightarrow> Constraints \<Rightarrow> Constraints" where
  "heightToMax c d =
     \<lparr>minimum = (minimum c)\<lparr>height := max (height (minimum c)) (height (minimum d))\<rparr>,
      preferred = (preferred c)\<lparr>height := max (height (preferred c)) (height (preferred d))\<rparr>\<rparr>"

definition addWidth :: "Constraints \<Rightarrow> Constraints \<Rightarrow> Constraints" where
  "addWidth c d =
     \<lparr>minimum = (minimum c)\<lparr>width := width (minimum c) + width (minimum d)\<rparr>,
      preferred = (preferred c)\<lparr>width := width (preferred c) + width (preferred d)\<rparr>\<rparr>"

definition addHeight :: "Constraints \<Rightarrow> Constraints \<Rightarrow> Constraints" where
  "addHeight c d =
     \<lparr>minimum = (minimum c)\<lparr>height := height (minimum c) + height (minimum d)\<rparr>,
      preferred = (preferred c)\<lparr>height := height (preferred c) + height (preferred d)\<rparr>\<rparr>"

text \<open>The classes of the file that differ in \<open>calculateConstraints\<close>.\<close>

datatype wkind = PlainWidget | VBox | HBox

record Widget =
  element :: elem
  contentElement :: elem
  kind :: wkind
  visibleInternal :: bool
  isRoot :: bool
  isShowingInternal :: bool
  childrenInternal :: "wid list"
  hideOnDetach :: bool
  notificationDepth :: int
  invalidationsSuspended :: int
  defaultFocusedChild :: "wid option"
  parentWidgetInternal :: "wid option"
  defaultFocusedElement :: "elem option"
  cachedConstraints :: "Constraints option"
  constraintsInternal :: "Constraints option"
  invalidationsRequested :: bool
  externallyManaged :: bool

datatype hook =
    WasShown
  | WillHide
  | OnResize
  | OnLayout
  | OnDetach
  | ChildWasDetached wid

datatype event =
    Called hook wid
  | ShowingSet wid bool
  | Recomputed wid

text \<open>
  The state: the heap of widget objects, the two module-level weak maps, the stored scroll
  positions, and what the code reads and writes of the DOM: the parent element of an
  element, the host of the shadow root an element sits directly under, the \<open>hidden\<close> class,
  the scroll offsets and the focused element. The order of siblings is not kept.
\<close>

record state =
  widgets :: "wid \<Rightarrow> Widget"
  widgetMap :: "elem \<Rightarrow> wid option"
  widgetCounterMap :: "elem \<Rightarrow> int option"
  storedScrollPositions :: "elem \<Rightarrow> (int \<times> int) option"
  parentElement :: "elem \<Rightarrow> elem option"
  shadowHost :: "elem \<Rightarrow> elem option"
  hiddenClass :: "elem \<Rightarrow> bool"
  scrollOffsets :: "elem \<Rightarrow> int \<times> int"
  activeElement :: "elem option"
  trace :: "event list"

type_synonym res = "error option \<times> state"
type_synonym hooks = "hook \<Rightarrow> wid \<Rightarrow> state \<Rightarrow> res"

definition upd :: "wid \<Rightarrow> (Widget \<Rightarrow> Widget) \<Rightarrow> state \<Rightarrow> state" where
  "upd w f s = s\<lparr>widgets := (widgets s)(w := f (widgets s w))\<rparr>"

definition logEvent :: "event \<Rightarrow> state \<Rightarrow> state" where
  "logEvent e s = s\<lparr>trace := trace s @ [e]\<rparr>"

text \<open>Sequencing: the second step runs only when the first did not throw.\<close>

definition andThen :: "(state \<Rightarrow> res) \<Rightarrow> (state \<Rightarrow> res) \<Rightarrow> state \<Rightarrow> res" where
  "andThen f g s = (case f s of (None, s') \<Rightarrow> g s' | (Some e, s') \<Rightarrow> (Some e, s'))"

definition skip :: "state \<Rightarrow> res" where
  "skip s = (None, s)"

definition throw :: "error \<Rightarrow> state \<Rightarrow> res" where
  "throw e s = (Some e, s)"

definition assert :: "bool \<Rightarrow> string \<Rightarrow> state \<Rightarrow> res" where
  "assert condition message s = (if condition then (None, s) else (Some (Error message), s))"

definition callHook :: "hooks \<Rightarrow> hook \<Rightarrow> wid \<Rightarrow> state \<Rightarrow> res" where
  "callHook h k w s = h k w (logEvent (Called k w) s)"

text \<open>The hooks of the base class: every one returns at once.\<close>

definition noHooks :: hooks where
  "noHooks k w s = (None, s)"

subsection \<open>The DOM primitives\<close>

text \<open>
  Modelled from the spec: \<open>parentElementOrShadowHost\<close> and \<open>removeChildren\<close> are defined in
  \<open>dom_extension.js\<close>, which is not among the sources, and the saved \<open>appendChild\<close>,
  \<open>insertBefore\<close> and \<open>removeChild\<close> are the browser's. The walk goes to the parent
  element, or to the host when the parent is a shadow root. Insertion refuses a node that
  contains the target and a reference child that is not a child of the target; removal
  refuses a node that is not a child.
\<close>

definition parentElementOrShadowHost :: "state \<Rightarrow> elem \<Rightarrow> elem option" where
  "parentElementOrShadowHost s e =
     (case parentElement s e of Some p \<Rightarrow> Some p | None \<Rightarrow> shadowHost s e)"

primrec containsNode :: "nat \<Rightarrow> state \<Rightarrow> elem \<Rightarrow> elem option \<Rightarrow> error + bool" where
  "containsNode 0 s a cur = Inl OutOfFuel"
| "containsNode (Suc n) s a cur =
     (case cur of
        None \<Rightarrow> Inr False
      | Some e \<Rightarrow> if e = a then Inr True else containsNode n s a (parentElementOrShadowHost s e))"

definition placeUnder :: "elem \<Rightarrow> elem \<Rightarrow> state \<Rightarrow> state" where
  "placeUnder this node s =
     s\<lparr>parentElement := (parentElement s)(node := Some this),
       shadowHost := (shadowHost s)(node := None)\<rparr>"

definition originalAppendChild :: "nat \<Rightarrow> elem \<Rightarrow> elem \<Rightarrow> state \<Rightarrow> res" where
  "originalAppendChild n this node s =
     (case containsNode n s node (Some this) of
        Inl e \<Rightarrow> (Some e, s)
      | Inr True \<Rightarrow> (Some (DOMException ''HierarchyRequestError''), s)
      | Inr False \<Rightarrow> (None, placeUnder this node s))"

definition originalInsertBefore :: "nat \<Rightarrow> elem \<Rightarrow> elem \<Rightarrow> elem option \<Rightarrow> state \<Rightarrow> res" where
  "originalInsertBefore n this node child s =
     (case containsNode n s node (Some this) of
        Inl e \<Rightarrow> (Some e, s)
      | Inr True \<Rightarrow> (Some (DOMException ''HierarchyRequestError''), s)
      | Inr False \<Rightarrow>
          (case child of
             None \<Rightarrow> (None, placeUnder this node s)
           | Some r \<Rightarrow>
               if parentElement s r = Some this then (None, placeUnder this node s)
               else (Some (DOMException ''NotFoundError''), s)))"

definition originalRemoveChild :: "elem \<Rightarrow> elem \<Rightarrow> state \<Rightarrow> res" where
  "originalRemoveChild this child s =
     (if parentElement s child = Some this
      then (None, s\<lparr>parentElement := (parentElement s)(child := None)\<rparr>)
      else (Some (DOMException ''NotFoundError''), s))"

definition originalRemoveChildren :: "elem \<Rightarrow> state \<Rightarrow> res" where
  "originalRemoveChildren this s =
     (None, s\<lparr>parentElement :=
        (\<lambda>e. if parentElement s e = Some this then None else parentElement s e)\<rparr>)"

subsection \<open>The widget counter\<close>

definition counterOf :: "state \<Rightarrow> elem \<Rightarrow> int" where
  "counterOf s e = (case widgetCounterMap s e of None \<Rightarrow> 0 | Some c \<Rightarrow> c)"

definition widgetCountOf :: "state \<Rightarrow> elem \<Rightarrow> int" where
  "widgetCountOf s childElement =
     counterOf s childElement + (if widgetMap s childElement \<noteq> None then 1 else 0)"

primrec incrementLoop :: "nat \<Rightarrow> int \<Rightarrow> elem option \<Rightarrow> state \<Rightarrow> res" where
  "incrementLoop 0 count el s = (Some OutOfFuel, s)"
| "incrementLoop (Suc n) count el s =
     (case el of
        None \<Rightarrow> (None, s)
      | Some e \<Rightarrow>
          incrementLoop n count (parentElementOrShadowHost s e)
            (s\<lparr>widgetCounterMap := (widgetCounterMap s)(e := Some (counterOf s e + count))\<rparr>))"

definition incrementWidgetCounter :: "nat \<Rightarrow> elem \<Rightarrow> elem \<Rightarrow> state \<Rightarrow> res" where
  "incrementWidgetCounter n parentElem childElement s =
     incrementLoop n (widgetCountOf s childElement) (Some parentElem) s"

primrec decrementLoop :: "nat \<Rightarrow> int \<Rightarrow> elem option \<Rightarrow> state \<Rightarrow> res" where
  "decrementLoop 0 count el s = (Some OutOfFuel, s)"
| "decrementLoop (Suc n) count el s =
     (case el of
        None \<Rightarrow> (None, s)
      | Some e \<Rightarrow>
          decrementLoop n count (parentElementOrShadowHost s e)
            (if counterOf s e \<noteq> 0
             then s\<lparr>widgetCounterMap := (widgetCounterMap s)(e := Some (counterOf s e - count))\<rparr>
             else s))"

definition decrementWidgetCounter :: "nat \<Rightarrow> elem \<Rightarrow> elem \<Rightarrow> state \<Rightarrow> res" where
  "decrementWidgetCounter n parentElem childElement s =
     decrementLoop n (widgetCountOf s childElement) (Some parentElem) s"

subsection \<open>Construction and flags\<close>

text \<open>
  The constructor: \<open>e\<close> is the fresh \<open>div\<close> of the widget; a web component gets a second
  fresh element \<open>ce\<close> as its content element, placed under the shadow root of \<open>e\<close>.
\<close>

definition freshWidget :: "wkind \<Rightarrow> elem \<Rightarrow> elem \<Rightarrow> Widget" where
  "freshWidget k e ce =
     \<lparr>element = e,
      contentElement = ce,
      kind = k,
      visibleInternal = False,
      isRoot = False,
      isShowingInternal = False,
      childrenInternal = [],
      hideOnDetach = False,
      notificationDepth = 0,
      invalidationsSuspended = 0,
      defaultFocusedChild = None,
      parentWidgetInternal = None,
      defaultFocusedElement = None,
      cachedConstraints = None,
      constraintsInternal = None,
      invalidationsRequested = False,
      externallyManaged = False\<rparr>"

definition newWidget :: "wkind \<Rightarrow> wid \<Rightarrow> elem \<Rightarrow> elem option \<Rightarrow> state \<Rightarrow> state" where
  "newWidget k w e webContent s =
     s\<lparr>widgets := (widgets s)(w :=
          freshWidget k e (case webContent of None \<Rightarrow> e | Some ce \<Rightarrow> ce)),
       widgetMap := (widgetMap s)(e := Some w),
       shadowHost := (case webContent of None \<Rightarrow> shadowHost s
                      | Some ce \<Rightarrow> (shadowHost s)(ce := Some e))\<rparr>"

text \<open>A document without widgets: no element has a parent, a class or a counter.\<close>

definition emptyDocument :: state where
  "emptyDocument =
     \<lparr>widgets = (\<lambda>w. freshWidget PlainWidget 0 0),
      widgetMap = (\<lambda>e. None),
      widgetCounterMap = (\<lambda>e. None),
      storedScrollPositions = (\<lambda>e. None),
      parentElement = (\<lambda>e. None),
      shadowHost = (\<lambda>e. None),
      hiddenClass = (\<lambda>e. False),
      scrollOffsets = (\<lambda>e. (0, 0)),
      activeElement = None,
      trace = []\<rparr>"

definition get :: "state \<Rightarrow> elem \<Rightarrow> wid option" where
  "get s node = widgetMap s node"

definition markAsRoot :: "wid \<Rightarrow> state \<Rightarrow> res" where
  "markAsRoot w s =
     andThen (assert (parentElement s (element (widgets s w)) = None)
                ''Attempt to mark as root attached node'')
       (\<lambda>s. (None, upd w (\<lambda>x. x\<lparr>isRoot := True\<rparr>) s)) s"

definition setHideOnDetach :: "wid \<Rightarrow> state \<Rightarrow> res" where
  "setHideOnDetach w s = (None, upd w (\<lambda>x. x\<lparr>hideOnDetach := True\<rparr>) s)"

definition markAsExternallyManaged :: "wid \<Rightarrow> state \<Rightarrow> res" where
  "markAsExternallyManaged w s =
     andThen (assert (parentWidgetInternal (widgets s w) = None)
                ''Attempt to mark widget as externally managed after insertion to the DOM'')
       (\<lambda>s. (None, upd w (\<lambda>x. x\<lparr>externallyManaged := True\<rparr>) s)) s"

definition setDefaultFocusedElement :: "wid \<Rightarrow> elem option \<Rightarrow> state \<Rightarrow> res" where
  "setDefaultFocusedElement w e s = (None, upd w (\<lambda>x. x\<lparr>defaultFocusedElement := e\<rparr>) s)"

definition setDefaultFocusedChild :: "wid \<Rightarrow> wid \<Rightarrow> state \<Rightarrow> res" where
  "setDefaultFocusedChild w child s =
     andThen (assert (parentWidgetInternal (widgets s child) = Some w)
                ''Attempt to set non-child widget as default focused.'')
       (\<lambda>s. (None, upd w (\<lambda>x. x\<lparr>defaultFocusedChild := Some child\<rparr>) s)) s"

definition isShowing :: "state \<Rightarrow> wid \<Rightarrow> bool" where
  "isShowing s w = isShowingInternal (widgets s w)"

primrec anyChild :: "(wid \<Rightarrow> error + bool) \<Rightarrow> wid list \<Rightarrow> error + bool" where
  "anyChild f [] = Inr False"
| "anyChild f (c # cs) =
     (case f c of Inl e \<Rightarrow> Inl e | Inr True \<Rightarrow> Inr True | Inr False \<Rightarrow> anyChild f cs)"

primrec shouldHideOnDetach :: "nat \<Rightarrow> state \<Rightarrow> wid \<Rightarrow> error + bool" where
  "shouldHideOnDetach 0 s w = Inl OutOfFuel"
| "shouldHideOnDetach (Suc n) s w =
     (if parentElement s (element (widgets s w)) = None then Inr False
      else if hideOnDetach (widgets s w) then Inr True
      else anyChild (shouldHideOnDetach n s) (childrenInternal (widgets s w)))"

primrec inNotification :: "nat \<Rightarrow> state \<Rightarrow> wid \<Rightarrow> error + bool" where
  "inNotification 0 s w = Inl OutOfFuel"
| "inNotification (Suc n) s w =
     (if notificationDepth (widgets s w) \<noteq> 0 then Inr True
      else (case parentWidgetInternal (widgets s w) of
              None \<Rightarrow> Inr False
            | Some p \<Rightarrow> inNotification n s p))"

definition parentIsShowing :: "state \<Rightarrow> wid \<Rightarrow> bool" where
  "parentIsShowing s w =
     (if isRoot (widgets s w) then True
      else (case parentWidgetInternal (widgets s w) of
              None \<Rightarrow> False
            | Some p \<Rightarrow> isShowing s p))"

subsection \<open>Notification passes\<close>

text \<open>
  \<open>callOnVisibleChildren\<close> iterates over a copy of the children list and tests each child
  in the state of its turn.
\<close>

primrec callOnEach :: "(wid \<Rightarrow> state \<Rightarrow> res) \<Rightarrow> wid \<Rightarrow> wid list \<Rightarrow> state \<Rightarrow> res" where
  "callOnEach method w [] s = (None, s)"
| "callOnEach method w (c # cs) s =
     (if parentWidgetInternal (widgets s c) = Some w \<and> visibleInternal (widgets s c)
      then (case method c s of
              (None, s') \<Rightarrow> callOnEach method w cs s'
            | (Some e, s') \<Rightarrow> (Some e, s'))
      else callOnEach method w cs s)"

definition callOnVisibleChildren :: "(wid \<Rightarrow> state \<Rightarrow> res) \<Rightarrow> wid \<Rightarrow> state \<Rightarrow> res" where
  "callOnVisibleChildren method w s = callOnEach method w (childrenInternal (widgets s w)) s"

definition setShowing :: "wid \<Rightarrow> bool \<Rightarrow> state \<Rightarrow> res" where
  "setShowing w b s = (None, upd w (\<lambda>x. x\<lparr>isShowingInternal := b\<rparr>) (logEvent (ShowingSet w b) s))"

text \<open>\<open>try { notification.call(this) } finally { --this.notificationDepth }\<close>\<close>

definition notify :: "hooks \<Rightarrow> hook \<Rightarrow> wid \<Rightarrow> state \<Rightarrow> res" where
  "notify h k w s =
     (case callHook h k w (upd w (\<lambda>x. x\<lparr>notificationDepth := notificationDepth x + 1\<rparr>) s) of
        (r, s') \<Rightarrow> (r, upd w (\<lambda>x. x\<lparr>notificationDepth := notificationDepth x - 1\<rparr>) s'))"

text \<open>The base class restores and stores the scroll position of its own element only.\<close>

definition storeScrollPositions :: "wid \<Rightarrow> state \<Rightarrow> res" where
  "storeScrollPositions w s =
     (let container = element (widgets s w) in
      (None, s\<lparr>storedScrollPositions :=
                 (storedScrollPositions s)(container := Some (scrollOffsets s container))\<rparr>))"

definition restoreScrollPositions :: "wid \<Rightarrow> state \<Rightarrow> res" where
  "restoreScrollPositions w s =
     (let container = element (widgets s w) in
      (case storedScrollPositions s container of
         None \<Rightarrow> (None, s)
       | Some p \<Rightarrow> (None, s\<lparr>scrollOffsets := (scrollOffsets s)(container := p)\<rparr>)))"

primrec processWillShow :: "nat \<Rightarrow> wid \<Rightarrow> state \<Rightarrow> res" where
  "processWillShow 0 w s = (Some OutOfFuel, s)"
| "processWillShow (Suc n) w s =
     andThen (callOnVisibleChildren (processWillShow n) w) (setShowing w True) s"

primrec processWasShown :: "nat \<Rightarrow> hooks \<Rightarrow> wid \<Rightarrow> state \<Rightarrow> res" where
  "processWasShown 0 h w s = (Some OutOfFuel, s)"
| "processWasShown (Suc n) h w s =
     (case inNotification (Suc n) s w of
        Inl e \<Rightarrow> (Some e, s)
      | Inr True \<Rightarrow> (None, s)
      | Inr False \<Rightarrow>
          andThen (restoreScrollPositions w)
            (andThen (notify h WasShown w)
               (callOnVisibleChildren (processWasShown n h) w)) s)"

primrec processWillHide :: "nat \<Rightarrow> hooks \<Rightarrow> wid \<Rightarrow> state \<Rightarrow> res" where
  "processWillHide 0 h w s = (Some OutOfFuel, s)"
| "processWillHide (Suc n) h w s =
     (case inNotification (Suc n) s w of
        Inl e \<Rightarrow> (Some e, s)
      | Inr True \<Rightarrow> (None, s)
      | Inr False \<Rightarrow>
          andThen (storeScrollPositions w)
            (andThen (callOnVisibleChildren (processWillHide n h) w)
               (andThen (notify h WillHide w)
                  (setShowing w False))) s)"

primrec processWasHidden :: "nat \<Rightarrow> wid \<Rightarrow> state \<Rightarrow> res" where
  "processWasHidden 0 w s = (Some OutOfFuel, s)"
| "processWasHidden (Suc n) w s = callOnVisibleChildren (processWasHidden n) w s"

primrec processOnResize :: "nat \<Rightarrow> hooks \<Rightarrow> wid \<Rightarrow> state \<Rightarrow> res" where
  "processOnResize 0 h w s = (Some OutOfFuel, s)"
| "processOnResize (Suc n) h w s =
     (case inNotification (Suc n) s w of
        Inl e \<Rightarrow> (Some e, s)
      | Inr True \<Rightarrow> (None, s)
      | Inr False \<Rightarrow>
          if \<not> isShowing s w then (None, s)
          else andThen (notify h OnResize w)
                 (callOnVisibleChildren (processOnResize n h) w) s)"

definition doResize :: "hooks \<Rightarrow> nat \<Rightarrow> wid \<Rightarrow> state \<Rightarrow> res" where
  "doResize h n w s =
     (if \<not> isShowing s w then (None, s)
      else (case inNotification n s w of
              Inl e \<Rightarrow> (Some e, s)
            | Inr True \<Rightarrow> (None, s)
            | Inr False \<Rightarrow> callOnVisibleChildren (processOnResize n h) w s))"

definition doLayout :: "hooks \<Rightarrow> nat \<Rightarrow> wid \<Rightarrow> state \<Rightarrow> res" where
  "doLayout h n w s =
     (if \<not> isShowing s w then (None, s)
      else andThen (notify h OnLayout w) (doResize h n w) s)"

subsection \<open>Constraints and invalidation\<close>

text \<open>
  \<open>calculateConstraints\<close> of \<open>VBox\<close> and \<open>HBox\<close> folds over the visible children with
  \<open>callOnVisibleChildren\<close>; the accumulator is the captured variable \<open>constraints\<close>.
\<close>

primrec foldVisible ::
  "(wid \<Rightarrow> state \<Rightarrow> (error + Constraints) \<times> state) \<Rightarrow> (Constraints \<Rightarrow> Constraints \<Rightarrow> Constraints)
     \<Rightarrow> wid \<Rightarrow> wid list \<Rightarrow> Constraints \<Rightarrow> state \<Rightarrow> (error + Constraints) \<times> state" where
  "foldVisible childConstraints step w [] acc s = (Inr acc, s)"
| "foldVisible childConstraints step w (c # cs) acc s =
     (if parentWidgetInternal (widgets s c) = Some w \<and> visibleInternal (widgets s c)
      then (case childConstraints c s of
              (Inl e, s') \<Rightarrow> (Inl e, s')
            | (Inr child, s') \<Rightarrow> foldVisible childConstraints step w cs (step acc child) s')
      else foldVisible childConstraints step w cs acc s)"

definition calculateConstraints ::
  "(wid \<Rightarrow> state \<Rightarrow> (error + Constraints) \<times> state) \<Rightarrow> wid \<Rightarrow> state
     \<Rightarrow> (error + Constraints) \<times> state" where
  "calculateConstraints childConstraints w s =
     (case kind (widgets s w) of
        PlainWidget \<Rightarrow> (Inr zeroConstraints, s)
      | VBox \<Rightarrow>
          foldVisible childConstraints (\<lambda>acc child. addHeight (widthToMax acc child) child)
            w (childrenInternal (widgets s w)) zeroConstraints s
      | HBox \<Rightarrow>
          foldVisible childConstraints (\<lambda>acc child. heightToMax (addWidth acc child) child)
            w (childrenInternal (widgets s w)) zeroConstraints s)"

primrec constraints :: "nat \<Rightarrow> wid \<Rightarrow> state \<Rightarrow> (error + Constraints) \<times> state" where
  "constraints 0 w s = (Inl OutOfFuel, s)"
| "constraints (Suc n) w s =
     (case constraintsInternal (widgets s w) of
        Some c \<Rightarrow> (Inr c, s)
      | None \<Rightarrow>
          (case cachedConstraints (widgets s w) of
             Some c \<Rightarrow> (Inr c, s)
           | None \<Rightarrow>
               (case calculateConstraints (constraints n) w s of
                  (Inl e, s') \<Rightarrow> (Inl e, s')
                | (Inr c, s') \<Rightarrow> (Inr c, upd w (\<lambda>x. x\<lparr>cachedConstraints := Some c\<rparr>) s'))))"

definition nonZero :: "Constraints \<Rightarrow> bool" where
  "nonZero c = (width (minimum c) \<noteq> 0 \<or> height (minimum c) \<noteq> 0
                 \<or> width (preferred c) \<noteq> 0 \<or> height (preferred c) \<noteq> 0)"

definition hasNonZeroConstraints :: "nat \<Rightarrow> wid \<Rightarrow> state \<Rightarrow> (error + bool) \<times> state" where
  "hasNonZeroConstraints n w s =
     (case constraints n w s of
        (Inl e, s') \<Rightarrow> (Inl e, s')
      | (Inr c, s') \<Rightarrow> (Inr (nonZero c), s'))"

definition suspendInvalidations :: "wid \<Rightarrow> state \<Rightarrow> res" where
  "suspendInvalidations w s =
     (None, upd w (\<lambda>x. x\<lparr>invalidationsSuspended := invalidationsSuspended x + 1\<rparr>) s)"

primrec invalidateConstraints :: "nat \<Rightarrow> hooks \<Rightarrow> wid \<Rightarrow> state \<Rightarrow> res" where
  "invalidateConstraints 0 h w s = (Some OutOfFuel, s)"
| "invalidateConstraints (Suc n) h w s =
     (if invalidationsSuspended (widgets s w) \<noteq> 0
      then (None, upd w (\<lambda>x. x\<lparr>invalidationsRequested := True\<rparr>) s)
      else
        (let cached = cachedConstraints (widgets s w);
             s1 = logEvent (Recomputed w)
                    (upd w (\<lambda>x. x\<lparr>invalidationsRequested := False, cachedConstraints := None\<rparr>) s)
         in (case constraints (Suc n) w s1 of
               (Inl e, s2) \<Rightarrow> (Some e, s2)
             | (Inr actual, s2) \<Rightarrow>
                 (case parentWidgetInternal (widgets s2 w) of
                    Some p \<Rightarrow>
                      if \<not> isEqual actual cached then invalidateConstraints n h p s2
                      else doLayout h (Suc n) w s2
                  | None \<Rightarrow> doLayout h (Suc n) w s2))))"

definition resumeInvalidations :: "hooks \<Rightarrow> nat \<Rightarrow> wid \<Rightarrow> state \<Rightarrow> res" where
  "resumeInvalidations h n w s =
     (let s1 = upd w (\<lambda>x. x\<lparr>invalidationsSuspended := invalidationsSuspended x - 1\<rparr>) s
      in if invalidationsSuspended (widgets s1 w) = 0 \<and> invalidationsRequested (widgets s1 w)
         then invalidateConstraints n h w s1
         else (None, s1))"

definition setMinimumAndPreferredSizes ::
  "hooks \<Rightarrow> nat \<Rightarrow> wid \<Rightarrow> int \<Rightarrow> int \<Rightarrow> int \<Rightarrow> int \<Rightarrow> state \<Rightarrow> res" where
  "setMinimumAndPreferredSizes h n w wd ht preferredWidth preferredHeight s =
     invalidateConstraints n h w
       (upd w (\<lambda>x. x\<lparr>constraintsInternal :=
                       Some \<lparr>minimum = \<lparr>width = wd, height = ht\<rparr>,
                             preferred = \<lparr>width = preferredWidth, height = preferredHeight\<rparr>\<rparr>\<rparr>) s)"

definition setMinimumSize :: "hooks \<Rightarrow> nat \<Rightarrow> wid \<Rightarrow> int \<Rightarrow> int \<Rightarrow> state \<Rightarrow> res" where
  "setMinimumSize h n w wd ht s =
     invalidateConstraints n h w
       (upd w (\<lambda>x. x\<lparr>constraintsInternal :=
                       Some (constraintsOfSize \<lparr>width = wd, height = ht\<rparr>)\<rparr>) s)"

text \<open>
  The tail of \<open>showWidgetInternal\<close> and of \<open>hideWidgetInternal\<close>:
  \<open>this.parentWidgetInternal && this.hasNonZeroConstraints()\<close> decides between the
  invalidation of the parent and \<open>otherwise\<close>.
\<close>

definition invalidateParentOr ::
  "hooks \<Rightarrow> nat \<Rightarrow> wid \<Rightarrow> (state \<Rightarrow> res) \<Rightarrow> state \<Rightarrow> res" where
  "invalidateParentOr h n w otherwise s =
     (case parentWidgetInternal (widgets s w) of
        None \<Rightarrow> otherwise s
      | Some p \<Rightarrow>
          (case hasNonZeroConstraints n w s of
             (Inl e, s') \<Rightarrow> (Some e, s')
           | (Inr True, s') \<Rightarrow> invalidateConstraints n h p s'
           | (Inr False, s') \<Rightarrow> otherwise s'))"

subsection \<open>Hiding and detaching\<close>

definition removeFromParent :: "nat \<Rightarrow> elem option \<Rightarrow> elem \<Rightarrow> state \<Rightarrow> res" where
  "removeFromParent n parentElem el s =
     (case parentElem of
        None \<Rightarrow> (None, s)
      | Some pe \<Rightarrow> andThen (decrementWidgetCounter n pe el) (originalRemoveChild pe el) s)"

definition hideWidgetInternal :: "hooks \<Rightarrow> nat \<Rightarrow> wid \<Rightarrow> bool \<Rightarrow> state \<Rightarrow> res" where
  "hideWidgetInternal h n w removeFromDOM s0 =
     (let s1 = upd w (\<lambda>x. x\<lparr>visibleInternal := False\<rparr>) s0;
          el = element (widgets s1 w);
          parentElem = parentElement s1 el
      in andThen (\<lambda>s. if parentIsShowing s w then processWillHide n h w s else (None, s))
           (andThen
              (\<lambda>s. if removeFromDOM
                    then andThen (removeFromParent n parentElem el) (callHook h OnDetach w) s
                    else (None, s\<lparr>hiddenClass := (hiddenClass s)(el := True)\<rparr>))
              (andThen (\<lambda>s. if parentIsShowing s w then processWasHidden n w s else (None, s))
                 (invalidateParentOr h n w skip))) s1)"

definition hideWidget :: "hooks \<Rightarrow> nat \<Rightarrow> wid \<Rightarrow> state \<Rightarrow> res" where
  "hideWidget h n w s =
     (if \<not> visibleInternal (widgets s w) then (None, s)
      else hideWidgetInternal h n w False s)"

definition unlinkFromParent :: "hooks \<Rightarrow> wid \<Rightarrow> state \<Rightarrow> res" where
  "unlinkFromParent h w s =
     (case parentWidgetInternal (widgets s w) of
        Some p \<Rightarrow>
          andThen (assert (w \<in> set (childrenInternal (widgets s p)))
                     ''Attempt to remove non-child widget'')
            (andThen
               (\<lambda>s. (None,
                  upd p (\<lambda>x. x\<lparr>defaultFocusedChild :=
                                  (if defaultFocusedChild x = Some w then None
                                   else defaultFocusedChild x)\<rparr>)
                    (upd p (\<lambda>x. x\<lparr>childrenInternal := remove1 w (childrenInternal x)\<rparr>) s)))
               (andThen (callHook h (ChildWasDetached w) p)
                  (\<lambda>s. (None, upd w (\<lambda>x. x\<lparr>parentWidgetInternal := None\<rparr>) s)))) s
      | None \<Rightarrow> assert (isRoot (widgets s w)) ''Removing non-root widget from DOM'' s)"

definition detach :: "hooks \<Rightarrow> nat \<Rightarrow> wid \<Rightarrow> bool \<Rightarrow> state \<Rightarrow> res" where
  "detach h n w overrideHideOnDetach s =
     (if parentWidgetInternal (widgets s w) = None \<and> \<not> isRoot (widgets s w) then (None, s)
      else
        (case (if overrideHideOnDetach then Inr True
               else (case shouldHideOnDetach n s w of
                       Inl e \<Rightarrow> Inl e
                     | Inr b \<Rightarrow> Inr (\<not> b))) of
           Inl e \<Rightarrow> (Some e, s)
         | Inr removeFromDOM \<Rightarrow>
             andThen
               (if visibleInternal (widgets s w) then hideWidgetInternal h n w removeFromDOM
                else if removeFromDOM
                     then removeFromParent n (parentElement s (element (widgets s w)))
                            (element (widgets s w))
                     else skip)
               (unlinkFromParent h w) s))"

subsection \<open>Attaching and showing\<close>

definition attach :: "hooks \<Rightarrow> nat \<Rightarrow> wid \<Rightarrow> wid \<Rightarrow> state \<Rightarrow> res" where
  "attach h n w parentWidget s =
     (if parentWidgetInternal (widgets s w) = Some parentWidget then (None, s)
      else andThen
             (if parentWidgetInternal (widgets s w) \<noteq> None then detach h n w False else skip)
             (\<lambda>s. (None,
                upd w (\<lambda>x. x\<lparr>isRoot := False\<rparr>)
                  (upd parentWidget (\<lambda>x. x\<lparr>childrenInternal := childrenInternal x @ [w]\<rparr>)
                     (upd w (\<lambda>x. x\<lparr>parentWidgetInternal := Some parentWidget\<rparr>) s)))) s)"

text \<open>The loop of \<open>show\<close>: the widget of the nearest registered ancestor or self.\<close>

primrec findParentWidget :: "nat \<Rightarrow> state \<Rightarrow> elem option \<Rightarrow> error + wid" where
  "findParentWidget 0 s currentParent = Inl OutOfFuel"
| "findParentWidget (Suc n) s currentParent =
     (case currentParent of
        None \<Rightarrow> Inl (Error ''Attempt to attach widget to orphan node'')
      | Some e \<Rightarrow>
          (case widgetMap s e of
             Some cw \<Rightarrow> Inr cw
           | None \<Rightarrow> findParentWidget n s (parentElementOrShadowHost s e)))"

text \<open>The loop of \<open>showWidgetInternal\<close>: the nearest registered ancestor or self, or null.\<close>

primrec nearestWidgetElement :: "nat \<Rightarrow> state \<Rightarrow> elem option \<Rightarrow> error + elem option" where
  "nearestWidgetElement 0 s currentParent = Inl OutOfFuel"
| "nearestWidgetElement (Suc n) s currentParent =
     (case currentParent of
        None \<Rightarrow> Inr None
      | Some e \<Rightarrow>
          if widgetMap s e \<noteq> None then Inr (Some e)
          else nearestWidgetElement n s (parentElementOrShadowHost s e))"

definition reparent :: "nat \<Rightarrow> wid \<Rightarrow> elem \<Rightarrow> elem option \<Rightarrow> state \<Rightarrow> res" where
  "reparent n w parentElem insertBefore s =
     (let el = element (widgets s w) in
      if parentElement s el \<noteq> Some parentElem
      then andThen
             (if \<not> externallyManaged (widgets s w) then incrementWidgetCounter n parentElem el
              else skip)
             (case insertBefore of
                Some r \<Rightarrow> originalInsertBefore n parentElem el (Some r)
              | None \<Rightarrow> originalAppendChild n parentElem el) s
      else (None, s))"

definition showWidgetInternal ::
  "hooks \<Rightarrow> nat \<Rightarrow> wid \<Rightarrow> elem \<Rightarrow> elem option \<Rightarrow> state \<Rightarrow> res" where
  "showWidgetInternal h n w parentElem insertBefore s =
     (case nearestWidgetElement n s (Some parentElem) of
        Inl e \<Rightarrow> (Some e, s)
      | Inr currentParent \<Rightarrow>
          andThen
            (if isRoot (widgets s w)
             then assert (currentParent = None) ''Attempt to show root widget under another widget''
             else assert (case currentParent of
                            None \<Rightarrow> False
                          | Some cp \<Rightarrow> widgetMap s cp = parentWidgetInternal (widgets s w))
                    ''Attempt to show under node belonging to alien widget'')
            (\<lambda>s. let wasVisible = visibleInternal (widgets s w) in
               if wasVisible \<and> parentElement s (element (widgets s w)) = Some parentElem
               then (None, s)
               else
                 andThen (\<lambda>s. (None, upd w (\<lambda>x. x\<lparr>visibleInternal := True\<rparr>) s))
                   (andThen
                      (\<lambda>s. if \<not> wasVisible \<and> parentIsShowing s w then processWillShow n w s
                            else (None, s))
                      (andThen
                         (\<lambda>s. (None, s\<lparr>hiddenClass :=
                                  (hiddenClass s)(element (widgets s w) := False)\<rparr>))
                         (andThen (reparent n w parentElem insertBefore)
                            (andThen
                               (\<lambda>s. if \<not> wasVisible \<and> parentIsShowing s w
                                     then processWasShown n h w s
                                     else (None, s))
                               (invalidateParentOr h n w (processOnResize n h w)))))) s) s)"

text \<open>
  \<open>showWidget\<close> passes the element's own parent and next sibling. The element is already
  under that parent, so \<open>showWidgetInternal\<close> does not reparent and never reads the sibling.
\<close>

definition showWidget :: "hooks \<Rightarrow> nat \<Rightarrow> wid \<Rightarrow> state \<Rightarrow> res" where
  "showWidget h n w s =
     (if visibleInternal (widgets s w) then (None, s)
      else (case parentElement s (element (widgets s w)) of
              None \<Rightarrow>
                (Some (Error ''Attempt to show widget that is not hidden using hideWidget().''), s)
            | Some pe \<Rightarrow> showWidgetInternal h n w pe None s))"

text \<open>
  \<open>Widget.show\<close> (\<open>show\<close> is a reserved word of the proof language). The parent element
  is an \<open>Element\<close>, never null, so the first assertion of the source cannot fail.
\<close>

definition show_op :: "hooks \<Rightarrow> nat \<Rightarrow> wid \<Rightarrow> elem \<Rightarrow> elem option \<Rightarrow> state \<Rightarrow> res" where
  "show_op h n w parentElem insertBefore s =
     (if \<not> isRoot (widgets s w)
      then (case findParentWidget n s (Some parentElem) of
              Inl e \<Rightarrow> (Some e, s)
            | Inr currentWidget \<Rightarrow>
                andThen (attach h n w currentWidget)
                  (showWidgetInternal h n w parentElem insertBefore) s)
      else showWidgetInternal h n w parentElem insertBefore s)"

subsection \<open>The overridden DOM methods\<close>

definition appendChild :: "nat \<Rightarrow> elem \<Rightarrow> elem \<Rightarrow> state \<Rightarrow> res" where
  "appendChild n this node s =
     (if widgetMap s node \<noteq> None \<and> parentElement s node \<noteq> Some this
      then (Some (Error ''Attempt to add widget via regular DOM operation.''), s)
      else originalAppendChild n this node s)"

definition insertBefore :: "nat \<Rightarrow> elem \<Rightarrow> elem \<Rightarrow> elem option \<Rightarrow> state \<Rightarrow> res" where
  "insertBefore n this node child s =
     (if widgetMap s node \<noteq> None \<and> parentElement s node \<noteq> Some this
      then (Some (Error ''Attempt to add widget via regular DOM operation.''), s)
      else originalInsertBefore n this node child s)"

definition removeChild :: "elem \<Rightarrow> elem \<Rightarrow> state \<Rightarrow> res" where
  "removeChild this child s =
     (if counterOf s child \<noteq> 0 \<or> widgetMap s child \<noteq> None
      then (Some (Error ''Attempt to remove element containing widget via regular DOM operation''), s)
      else originalRemoveChild this child s)"

definition removeChildren :: "elem \<Rightarrow> state \<Rightarrow> res" where
  "removeChildren this s =
     (if counterOf s this \<noteq> 0
      then (Some (Error ''Attempt to remove element containing widget via regular DOM operation''), s)
      else originalRemoveChildren this s)"

subsection \<open>WidgetFocusRestorer\<close>

text \<open>
  Modelled from the spec: \<open>Element.hasFocus\<close> comes from \<open>dom_extension.js\<close> and
  \<open>HTMLElement.focus\<close> from the browser. Both are parameters: \<open>hasFocus s e\<close> tells whether
  the element \<open>e\<close> holds the focus in \<open>s\<close>, and \<open>focus e\<close> moves the focus to \<open>e\<close>.
\<close>

record WidgetFocusRestorer =
  widget :: "wid option"
  previous :: "elem option"

definition widgetHasFocus :: "(state \<Rightarrow> elem \<Rightarrow> bool) \<Rightarrow> state \<Rightarrow> wid \<Rightarrow> bool" where
  "widgetHasFocus hasFocus s w = hasFocus s (element (widgets s w))"

definition restore ::
  "(state \<Rightarrow> elem \<Rightarrow> bool) \<Rightarrow> (elem \<Rightarrow> state \<Rightarrow> state) \<Rightarrow> WidgetFocusRestorer \<Rightarrow> state
     \<Rightarrow> WidgetFocusRestorer \<times> state" where
  "restore hasFocus focus r s =
     (case widget r of
        None \<Rightarrow> (r, s)
      | Some w \<Rightarrow>
          (r\<lparr>previous := None, widget := None\<rparr>,
           (case previous r of
              Some p \<Rightarrow> if widgetHasFocus hasFocus s w then focus p s else s
            | None \<Rightarrow> s)))"

text \<open>
  Modelled from the spec: one reading of the two parameters of \<open>restore\<close>. An element holds
  the focus when it is the active element or contains it, and \<open>focus\<close> makes its element
  the active one.
\<close>

definition elementHasFocus :: "nat \<Rightarrow> state \<Rightarrow> elem \<Rightarrow> bool" where
  "elementHasFocus n s e =
     (case activeElement s of
        None \<Rightarrow> False
      | Some a \<Rightarrow> containsNode n s e (Some a) = Inr True)"

definition elementFocus :: "elem \<Rightarrow> state \<Rightarrow> state" where
  "elementFocus e s = s\<lparr>activeElement := Some e\<rparr>"

subsection \<open>The public operations\<close>

datatype operation =
    Show wid elem "elem option"
  | ShowWidget wid
  | HideWidget wid
  | Detach wid bool
  | MarkAsRoot wid
  | MarkAsExternallyManaged wid
  | SetHideOnDetach wid
  | DoLayout wid
  | DoResize wid
  | SetMinimumSize wid int int
  | SuspendInvalidations wid
  | ResumeInvalidations wid
  | InvalidateConstraints wid

primrec perform :: "hooks \<Rightarrow> nat \<Rightarrow> operation \<Rightarrow> state \<Rightarrow> res" where
  "perform h n (Show w parentElem before) s = show_op h n w parentElem before s"
| "perform h n (ShowWidget w) s = showWidget h n w s"
| "perform h n (HideWidget w) s = hideWidget h n w s"
| "perform h n (Detach w overrideHideOnDetach) s = detach h n w overrideHideOnDetach s"
| "perform h n (MarkAsRoot w) s = markAsRoot w s"
| "perform h n (MarkAsExternallyManaged w) s = markAsExternallyManaged w s"
| "perform h n (SetHideOnDetach w) s = setHideOnDetach w s"
| "perform h n (DoLayout w) s = doLayout h n w s"
| "perform h n (DoResize w) s = doResize h n w s"
| "perform h n (SetMinimumSize w wd ht) s = setMinimumSize h n w wd ht s"
| "perform h n (SuspendInvalidations w) s = suspendInvalidations w s"
| "perform h n (ResumeInvalidations w) s = resumeInvalidations h n w s"
| "perform h n (InvalidateConstraints w) s = invalidateConstraints n h w s"

primrec runAll :: "(state \<Rightarrow> res) list \<Rightarrow> state \<Rightarrow> res" where
  "runAll [] s = (None, s)"
| "runAll (f # fs) s = andThen f (runAll fs) s"

section \<open>Properties\<close>

subsection \<open>Notions used by the statements\<close>

text \<open>The notification depth is nonzero on the widget or on one of its ancestors.\<close>

inductive depthNonzeroUpChain :: "state \<Rightarrow> wid \<Rightarrow> bool" where
  here: "notificationDepth (widgets s w) \<noteq> 0 \<Longrightarrow> depthNonzeroUpChain s w"
| above: "parentWidgetInternal (widgets s w) = Some p \<Longrightarrow> depthNonzeroUpChain s p
            \<Longrightarrow> depthNonzeroUpChain s w"

text \<open>The hook calls of the trace, and the events a computation adds to the trace.\<close>

primrec isCall :: "event \<Rightarrow> bool" where
  "isCall (Called k w) = True"
| "isCall (ShowingSet w b) = False"
| "isCall (Recomputed w) = False"

definition hookCalls :: "state \<Rightarrow> event list" where
  "hookCalls s = filter isCall (trace s)"

definition eventsOf :: "(state \<Rightarrow> 'a \<times> state) \<Rightarrow> state \<Rightarrow> event list" where
  "eventsOf f s = drop (length (trace s)) (trace (snd (f s)))"

text \<open>
  What is asked of a hook: the trace is a log, so a hook only adds to it, and
  \<open>notificationDepth\<close> is private to \<open>Widget\<close>, so a hook leaves it as it found it.
\<close>

definition extendsTrace :: "(state \<Rightarrow> 'a \<times> state) \<Rightarrow> bool" where
  "extendsTrace f = (\<forall>s. \<exists>t. trace (snd (f s)) = trace s @ t)"

definition depths :: "state \<Rightarrow> wid \<Rightarrow> int" where
  "depths s = (\<lambda>v. notificationDepth (widgets s v))"

definition keepsDepths :: "(state \<Rightarrow> 'a \<times> state) \<Rightarrow> bool" where
  "keepsDepths f = (\<forall>s. depths (snd (f s)) = depths s)"

text \<open>The logical tree of two states is the same: parents, children and visible flags.\<close>

definition sameTree :: "state \<Rightarrow> state \<Rightarrow> bool" where
  "sameTree s s' =
     (\<forall>v. parentWidgetInternal (widgets s' v) = parentWidgetInternal (widgets s v)
          \<and> visibleInternal (widgets s' v) = visibleInternal (widgets s v)
          \<and> childrenInternal (widgets s' v) = childrenInternal (widgets s v))"

text \<open>
  The invariant of the showing flag as the specification states it: showing if and only if
  visible and (root or parent showing).
\<close>

definition showingConsistent :: "state \<Rightarrow> wid \<Rightarrow> bool" where
  "showingConsistent s w =
     (isShowing s w = (visibleInternal (widgets s w) \<and> parentIsShowing s w))"

text \<open>
  The count the specification compares the widget counter with: the elements of a given
  list that belong to a widget not externally managed and lie strictly below \<open>a\<close>.
\<close>

definition isStrictlyBelow :: "nat \<Rightarrow> state \<Rightarrow> elem \<Rightarrow> elem \<Rightarrow> bool" where
  "isStrictlyBelow n s a e = (containsNode n s a (parentElementOrShadowHost s e) = Inr True)"

definition isCountedWidgetElement :: "state \<Rightarrow> elem \<Rightarrow> bool" where
  "isCountedWidgetElement s e =
     (case widgetMap s e of
        None \<Rightarrow> False
      | Some w \<Rightarrow> \<not> externallyManaged (widgets s w))"

definition widgetElementsBelow :: "nat \<Rightarrow> state \<Rightarrow> elem list \<Rightarrow> elem \<Rightarrow> int" where
  "widgetElementsBelow n s elements a =
     int (length (filter (\<lambda>e. isCountedWidgetElement s e \<and> isStrictlyBelow n s a e) elements))"

text \<open>
  What a hook that does not restructure anything leaves alone: the registry, the DOM parents
  and shadow hosts, and the element, parent, visible and root fields of every widget.
\<close>

definition shape ::
  "state \<Rightarrow> (elem \<Rightarrow> wid option) \<times> (elem \<Rightarrow> elem option) \<times> (elem \<Rightarrow> elem option)
     \<times> (wid \<Rightarrow> elem \<times> wid option \<times> bool \<times> bool)" where
  "shape s =
     (widgetMap s, parentElement s, shadowHost s,
      \<lambda>v. (element (widgets s v), parentWidgetInternal (widgets s v),
           visibleInternal (widgets s v), isRoot (widgets s v)))"

definition keepsShape :: "(state \<Rightarrow> 'a \<times> state) \<Rightarrow> bool" where
  "keepsShape f = (\<forall>s. shape (snd (f s)) = shape s)"

text \<open>The state with the widget made visible and its element placed under \<open>pe\<close>.\<close>

definition shownUnder :: "wid \<Rightarrow> elem \<Rightarrow> state \<Rightarrow> state" where
  "shownUnder w pe s =
     (if parentElement s (element (widgets s w)) = Some pe
      then upd w (\<lambda>x. x\<lparr>visibleInternal := True\<rparr>) s
      else placeUnder pe (element (widgets s w)) (upd w (\<lambda>x. x\<lparr>visibleInternal := True\<rparr>) s))"

text \<open>
  The constraint-changing operations of a widget, the constraints each of them assigns, and
  a batch of them made between \<open>suspendInvalidations\<close> and the matching
  \<open>resumeInvalidations\<close>.
\<close>

datatype sizing =
    Minimum int int
  | MinimumAndPreferred int int int int

primrec sizingConstraints :: "sizing \<Rightarrow> Constraints" where
  "sizingConstraints (Minimum a b) = constraintsOfSize \<lparr>width = a, height = b\<rparr>"
| "sizingConstraints (MinimumAndPreferred a b c d) =
     \<lparr>minimum = \<lparr>width = a, height = b\<rparr>, preferred = \<lparr>width = c, height = d\<rparr>\<rparr>"

primrec applySizing :: "hooks \<Rightarrow> nat \<Rightarrow> wid \<Rightarrow> sizing \<Rightarrow> state \<Rightarrow> res" where
  "applySizing h n w (Minimum a b) = setMinimumSize h n w a b"
| "applySizing h n w (MinimumAndPreferred a b c d) = setMinimumAndPreferredSizes h n w a b c d"

definition suspendedBatch :: "hooks \<Rightarrow> nat \<Rightarrow> wid \<Rightarrow> sizing list \<Rightarrow> state \<Rightarrow> res" where
  "suspendedBatch h n w zs =
     andThen (suspendInvalidations w)
       (andThen (runAll (map (applySizing h n w) zs)) (resumeInvalidations h n w))"

subsection \<open>Scenarios\<close>

definition enough :: nat where
  "enough = Suc (Suc (Suc (Suc 0)))"

text \<open>Widget 1 (element 10) is marked as root; widget 2 (element 20) is fresh.\<close>

definition twoWidgets :: state where
  "twoWidgets =
     snd (markAsRoot 1
       (newWidget PlainWidget 1 10 None (newWidget PlainWidget 2 20 None emptyDocument)))"

text \<open>Widget 2 is shown in the element of widget 1, which is not shown yet.\<close>

definition rootWithChild :: state where
  "rootWithChild = snd (show_op noHooks enough 2 10 None twoWidgets)"

text \<open>
  A subclass whose \<open>wasShown\<close> hides the child widget 2: \<open>this.child.hideWidget()\<close>. The
  call made by the hook runs with the same hooks; the first argument bounds the nesting.
\<close>

primrec hideChildInWasShown :: "nat \<Rightarrow> hooks" where
  "hideChildInWasShown 0 = (\<lambda>k w s. (Some OutOfFuel, s))"
| "hideChildInWasShown (Suc m) =
     (\<lambda>k w s. if k = WasShown \<and> w = 1 then hideWidget (hideChildInWasShown m) enough 2 s
              else (None, s))"

definition staleShowing :: res where
  "staleShowing = show_op (hideChildInWasShown enough) enough 1 100 None rootWithChild"

text \<open>The state a hook of widget 1 runs in: \<open>notify\<close> has raised its depth.\<close>

definition insideHook :: state where
  "insideHook = upd 1 (\<lambda>x. x\<lparr>notificationDepth := 1\<rparr>) rootWithChild"

text \<open>
  Widget 1 (element 10) holds two plain elements 11 and 12; widget 2 (element 20) is shown
  in 11 and then in 12.
\<close>

definition twoPanes :: state where
  "twoPanes =
     snd (appendChild enough 10 12
       (snd (appendChild enough 10 11
         (newWidget PlainWidget 1 10 None (newWidget PlainWidget 2 20 None emptyDocument)))))"

definition shownInFirstPane :: res where
  "shownInFirstPane = show_op noHooks enough 2 11 None twoPanes"

definition movedToSecondPane :: res where
  "movedToSecondPane = show_op noHooks enough 2 12 None (snd shownInFirstPane)"

text \<open>
  Widget 2 has \<open>hideOnDetach\<close> set and is shown in the element of widget 1; then it is
  hidden with \<open>hideWidget\<close>.
\<close>

definition keeperShown :: state where
  "keeperShown =
     snd (show_op noHooks enough 2 10 None
       (snd (setHideOnDetach 2
         (newWidget PlainWidget 1 10 None (newWidget PlainWidget 2 20 None emptyDocument)))))"

definition keeperHidden :: state where
  "keeperHidden = snd (hideWidget noHooks enough 2 keeperShown)"

text \<open>A subclass whose hooks all throw.\<close>

definition throwingHooks :: hooks where
  "throwingHooks k w s = (Some (Error ''hook failed''), s)"

text \<open>
  The root widget 1 is shown in the plain element 100 and is showing; then widget 2 is shown
  in the element of widget 1 and is showing too.
\<close>

definition rootShown :: state where
  "rootShown = snd (show_op noHooks enough 1 100 None twoWidgets)"

definition bothShowing :: state where
  "bothShowing = snd (show_op noHooks enough 2 10 None rootShown)"

text \<open>
  Widgets 1 (element 10) and 3 (element 30), and the plain element 11 inside element 10.
  Widget 2 (element 20) is shown in 11, which makes it a child of widget 1; then the page
  moves 11 into element 30 with \<open>appendChild\<close>, which the guard allows because 11 is not
  the element of a widget.
\<close>

definition threeWidgets :: state where
  "threeWidgets =
     snd (appendChild enough 10 11
       (newWidget PlainWidget 1 10 None
         (newWidget PlainWidget 2 20 None (newWidget PlainWidget 3 30 None emptyDocument))))"

definition containerMoved :: state where
  "containerMoved =
     snd (appendChild enough 30 11 (snd (show_op noHooks enough 2 11 None threeWidgets)))"

text \<open>
  The root widget 1 is a \<open>VBox\<close> shown in the plain element 100; the leaf widget 2 is shown
  in its element; both are showing. In \<open>nestedSuspension\<close> the invalidations of the leaf are
  already suspended once.
\<close>

definition boxWithLeaf :: state where
  "boxWithLeaf =
     snd (show_op noHooks enough 2 10 None
       (snd (show_op noHooks enough 1 100 None
         (snd (markAsRoot 1
           (newWidget VBox 1 10 None (newWidget PlainWidget 2 20 None emptyDocument)))))))"

definition nestedSuspension :: state where
  "nestedSuspension = snd (suspendInvalidations 2 boxWithLeaf)"

definition twoSizings :: "sizing list" where
  "twoSizings = [Minimum 0 20, MinimumAndPreferred 5 5 7 7]"

subsection \<open>Evaluation of the scenarios\<close>

text \<open>The definitions a concrete run unfolds.\<close>

lemmas model_defs = upd_def logEvent_def andThen_def skip_def throw_def assert_def callHook_def
  noHooks_def parentElementOrShadowHost_def placeUnder_def originalAppendChild_def
  originalInsertBefore_def originalRemoveChild_def originalRemoveChildren_def counterOf_def
  widgetCountOf_def incrementWidgetCounter_def decrementWidgetCounter_def freshWidget_def
  newWidget_def emptyDocument_def markAsRoot_def setHideOnDetach_def markAsExternallyManaged_def
  isShowing_def parentIsShowing_def callOnVisibleChildren_def setShowing_def notify_def
  storeScrollPositions_def restoreScrollPositions_def doResize_def doLayout_def
  calculateConstraints_def nonZero_def hasNonZeroConstraints_def suspendInvalidations_def
  resumeInvalidations_def setMinimumSize_def setMinimumAndPreferredSizes_def
  invalidateParentOr_def removeFromParent_def
  hideWidgetInternal_def hideWidget_def unlinkFromParent_def detach_def attach_def reparent_def
  showWidgetInternal_def showWidget_def show_op_def zeroConstraints_def zeroSize_def
  constraintsOfSize_def isEqual_def widthToMax_def heightToMax_def addWidth_def addHeight_def
  suspendedBatch_def appendChild_def insertBefore_def removeChild_def
  removeChildren_def enough_def

lemmas scenario_defs = twoWidgets_def rootWithChild_def staleShowing_def
  insideHook_def twoPanes_def shownInFirstPane_def movedToSecondPane_def keeperShown_def
  keeperHidden_def throwingHooks_def rootShown_def bothShowing_def threeWidgets_def
  containerMoved_def boxWithLeaf_def nestedSuspension_def twoSizings_def

subsection \<open>The DOM guard\<close>

text \<open>
  C6. The overridden DOM methods throw, whatever else holds: \<open>appendChild\<close> and
  \<open>insertBefore\<close> when the node is the element of a registered widget and its parent
  element is not the target; \<open>removeChild\<close> when the node is the element of a registered
  widget or its widget counter is nonzero; \<open>removeChildren\<close> when the counter of the
  container is nonzero. The state is left as it was.
\<close>

theorem dom_guard_throws:
  "(widgetMap s node \<noteq> None \<and> parentElement s node \<noteq> Some this \<longrightarrow>
      appendChild n this node s
        = (Some (Error ''Attempt to add widget via regular DOM operation.''), s)
      \<and> insertBefore n this node before s
        = (Some (Error ''Attempt to add widget via regular DOM operation.''), s))
   \<and> (widgetMap s child \<noteq> None \<or> counterOf s child \<noteq> 0 \<longrightarrow>
      removeChild parent child s
        = (Some (Error ''Attempt to remove element containing widget via regular DOM operation''), s))
   \<and> (counterOf s container \<noteq> 0 \<longrightarrow>
      removeChildren container s
        = (Some (Error ''Attempt to remove element containing widget via regular DOM operation''), s))"
  by (auto simp: appendChild_def insertBefore_def removeChild_def removeChildren_def)

lemma shownInFirstPane_facts:
  "widgetMap (snd shownInFirstPane) 20 = Some 2"
  "widgetMap (snd shownInFirstPane) 11 = None"
  "parentElement (snd shownInFirstPane) 20 = Some 11"
  "counterOf (snd shownInFirstPane) 11 = 1"
  by (simp_all add: scenario_defs model_defs)

theorem dom_guard_throws_witness:
  "appendChild enough 12 20 (snd shownInFirstPane)
     = (Some (Error ''Attempt to add widget via regular DOM operation.''), snd shownInFirstPane)
   \<and> insertBefore enough 12 20 None (snd shownInFirstPane)
     = (Some (Error ''Attempt to add widget via regular DOM operation.''), snd shownInFirstPane)
   \<and> removeChild 11 20 (snd shownInFirstPane)
     = (Some (Error ''Attempt to remove element containing widget via regular DOM operation''),
        snd shownInFirstPane)
   \<and> removeChild 10 11 (snd shownInFirstPane)
     = (Some (Error ''Attempt to remove element containing widget via regular DOM operation''),
        snd shownInFirstPane)
   \<and> removeChildren 11 (snd shownInFirstPane)
     = (Some (Error ''Attempt to remove element containing widget via regular DOM operation''),
        snd shownInFirstPane)"
  using dom_guard_throws[of "snd shownInFirstPane" 20 12 enough None 20 11 11]
    dom_guard_throws[of "snd shownInFirstPane" 20 12 enough None 11 10 11]
  by (simp add: shownInFirstPane_facts)


subsection \<open>The focus restorer\<close>

text \<open>
  C9. \<open>restore\<close> on a restorer that still has its widget moves the focus to the recorded
  element exactly when the widget holds the focus and an element was recorded, and clears
  both fields; a second \<open>restore\<close> changes neither the restorer nor the state.
\<close>

theorem restore_single_shot:
  assumes "widget r = Some w"
  shows "restore hasFocus focus r s
           = (r\<lparr>previous := None, widget := None\<rparr>,
              (case previous r of
                 Some p \<Rightarrow> if widgetHasFocus hasFocus s w then focus p s else s
               | None \<Rightarrow> s))
         \<and> restore hasFocus focus (fst (restore hasFocus focus r s)) s'
           = (fst (restore hasFocus focus r s), s')"
  using assms by (simp add: restore_def)

theorem restore_single_shot_witness:
  "restore (elementHasFocus enough) elementFocus \<lparr>widget = Some 2, previous = Some 100\<rparr>
       (elementFocus 20 rootWithChild)
     = (\<lparr>widget = None, previous = None\<rparr>, elementFocus 100 (elementFocus 20 rootWithChild))
   \<and> restore (elementHasFocus enough) elementFocus \<lparr>widget = None, previous = None\<rparr>
         (elementFocus 100 (elementFocus 20 rootWithChild))
     = (\<lparr>widget = None, previous = None\<rparr>, elementFocus 100 (elementFocus 20 rootWithChild))
   \<and> activeElement (elementFocus 100 (elementFocus 20 rootWithChild)) = Some 100"
proof -
  have f: "widgetHasFocus (elementHasFocus enough) (elementFocus 20 rootWithChild) 2"
    by (simp add: widgetHasFocus_def elementHasFocus_def elementFocus_def scenario_defs model_defs)
  note t = restore_single_shot[of "\<lparr>widget = Some 2, previous = Some 100\<rparr>" 2
        "elementHasFocus enough" elementFocus "elementFocus 20 rootWithChild"
        "elementFocus 100 (elementFocus 20 rootWithChild)", simplified]
  have a: "restore (elementHasFocus enough) elementFocus \<lparr>widget = Some 2, previous = Some 100\<rparr>
       (elementFocus 20 rootWithChild)
     = (\<lparr>widget = None, previous = None\<rparr>, elementFocus 100 (elementFocus 20 rootWithChild))"
    using t f by simp
  have b: "restore (elementHasFocus enough) elementFocus \<lparr>widget = None, previous = None\<rparr>
         (elementFocus 100 (elementFocus 20 rootWithChild))
     = (\<lparr>widget = None, previous = None\<rparr>, elementFocus 100 (elementFocus 20 rootWithChild))"
    using t a by simp
  show ?thesis using a b by (simp add: elementFocus_def)
qed

subsection \<open>Suspended invalidations\<close>

lemma upd_upd: "upd w f (upd w g s) = upd w (\<lambda>x. f (g x)) s"
  by (simp add: upd_def)

lemma widgets_upd: "widgets (upd w f s) v = (if v = w then f (widgets s w) else widgets s v)"
  by (simp add: upd_def)

lemma applySizing_suspended:
  "invalidationsSuspended (widgets s w) \<noteq> 0 \<Longrightarrow>
   applySizing h (Suc n) w z s
     = (None, upd w (\<lambda>x. x\<lparr>constraintsInternal := Some (sizingConstraints z),
                            invalidationsRequested := True\<rparr>) s)"
  by (cases z)
     (simp_all add: setMinimumSize_def setMinimumAndPreferredSizes_def widgets_upd upd_upd)

lemma runAll_suspended:
  "invalidationsSuspended (widgets s w) \<noteq> 0 \<Longrightarrow> zs \<noteq> [] \<Longrightarrow>
   runAll (map (applySizing h (Suc n) w) zs) s
     = (None, upd w (\<lambda>x. x\<lparr>constraintsInternal := Some (sizingConstraints (last zs)),
                            invalidationsRequested := True\<rparr>) s)"
proof (induction zs arbitrary: s)
  case Nil
  then show ?case by simp
next
  case (Cons z zs)
  show ?case
  proof (cases "zs = []")
    case True
    with Cons.prems show ?thesis
      by (simp add: andThen_def applySizing_suspended)
  next
    case False
    with Cons show ?thesis
      by (simp add: andThen_def applySizing_suspended widgets_upd upd_upd)
  qed
qed

text \<open>
  What one pass of \<open>invalidateConstraints\<close> does on a widget that is not suspended and has
  constraints of its own: it clears the pending flag and the cache, recomputes (the
  recomputation is logged), compares the result with the cache it found, and goes on with
  the parent when they differ and there is a parent, with \<open>doLayout\<close> otherwise.
\<close>

lemma invalidateConstraints_pass:
  assumes "invalidationsSuspended (widgets s w) = 0"
    and "constraintsInternal (widgets s w) = Some c"
  shows "invalidateConstraints (Suc n) h w s
         = (let s1 = logEvent (Recomputed w)
                       (upd w (\<lambda>x. x\<lparr>invalidationsRequested := False,
                                      cachedConstraints := None\<rparr>) s)
            in case parentWidgetInternal (widgets s w) of
                 Some p \<Rightarrow>
                   if \<not> isEqual c (cachedConstraints (widgets s w))
                   then invalidateConstraints n h p s1
                   else doLayout h (Suc n) w s1
               | None \<Rightarrow> doLayout h (Suc n) w s1)"
  using assms
  by (simp add: Let_def logEvent_def upd_def split: option.splits)

lemma boxWithLeaf_facts0:
  "invalidationsSuspended (widgets boxWithLeaf 2) = 0"
  "parentWidgetInternal (widgets boxWithLeaf 2) = Some 1"
  "cachedConstraints (widgets boxWithLeaf 2) = Some zeroConstraints"
  "cachedConstraints (widgets boxWithLeaf 1) = None"
  "isShowingInternal (widgets boxWithLeaf 1)"
  "isShowingInternal (widgets boxWithLeaf 2)"
  "trace boxWithLeaf
     = [ShowingSet 1 True, Called WasShown 1, Called OnResize 1,
        ShowingSet 2 True, Called WasShown 2, Called OnResize 2]"
  by (simp_all add: scenario_defs model_defs)

lemmas boxWithLeaf_facts = boxWithLeaf_facts0 boxWithLeaf_facts0[unfolded One_nat_def]

lemma boxWithLeaf_batch:
  "fst (suspendedBatch noHooks enough 2 twoSizings boxWithLeaf) = None"
  "eventsOf (suspendedBatch noHooks enough 2 twoSizings) boxWithLeaf
     = [Recomputed 2, Recomputed 1, Called OnLayout 1, Called OnResize 2]"
  "cachedConstraints (widgets (snd (suspendedBatch noHooks enough 2 twoSizings boxWithLeaf)) 1)
     = Some \<lparr>minimum = \<lparr>width = 5, height = 5\<rparr>, preferred = \<lparr>width = 7, height = 7\<rparr>\<rparr>"
  "\<not> invalidationsRequested
       (widgets (snd (suspendedBatch noHooks enough 2 twoSizings boxWithLeaf)) 2)"
  "invalidationsSuspended
       (widgets (snd (suspendedBatch noHooks enough 2 twoSizings boxWithLeaf)) 2) = 0"
  by (simp_all add: eventsOf_def scenario_defs model_defs)

text \<open>
  In a nested scope the matching resume makes no pass. The invalidations of the showing leaf
  are suspended once already; \<open>suspendInvalidations\<close>, two constraint-changing calls and
  \<open>resumeInvalidations\<close> return without an error, log nothing, leave both caches as they
  were and leave the pending flag set, with the depth back at 1.
\<close>

theorem nested_scope_no_pass:
  "invalidationsSuspended (widgets nestedSuspension 2) = 1
   \<and> fst (suspendedBatch noHooks enough 2 twoSizings nestedSuspension) = None
   \<and> eventsOf (suspendedBatch noHooks enough 2 twoSizings) nestedSuspension = []
   \<and> invalidationsRequested
        (widgets (snd (suspendedBatch noHooks enough 2 twoSizings nestedSuspension)) 2)
   \<and> cachedConstraints
        (widgets (snd (suspendedBatch noHooks enough 2 twoSizings nestedSuspension)) 2)
       = cachedConstraints (widgets nestedSuspension 2)
   \<and> cachedConstraints
        (widgets (snd (suspendedBatch noHooks enough 2 twoSizings nestedSuspension)) 1)
       = cachedConstraints (widgets nestedSuspension 1)
   \<and> invalidationsSuspended
        (widgets (snd (suspendedBatch noHooks enough 2 twoSizings nestedSuspension)) 2) = 1"
  by (simp add: eventsOf_def scenario_defs model_defs)

text \<open>
  C7, as amended. The invalidations of the widget are not suspended before
  \<open>suspendInvalidations\<close> (the scope is the outermost one). Then, for one or more calls of
  \<open>setMinimumSize\<close> or \<open>setMinimumAndPreferredSizes\<close>: up to the resume nothing is
  recomputed, the calls only store their constraints and set the pending flag, so the
  state is the one before with the depth 1, the last constraints and the flag, and the
  trace and every cache are untouched. The matching \<open>resumeInvalidations\<close> then makes one
  pass with the last constraints: the depth is back at 0, the flag and the cache of the
  widget are cleared, one recomputation is logged, its result (the last constraints) is
  compared with the cache found, and the pass goes on with \<open>invalidateConstraints\<close> on the
  parent when they differ and there is a parent, with \<open>doLayout\<close> on the widget otherwise.
  While the suspension depth is nonzero, \<open>invalidateConstraints\<close> sets the pending flag and
  does nothing else. (In a nested scope the matching resume makes no pass.)
\<close>

theorem suspended_batch_one_pass:
  assumes "invalidationsSuspended (widgets s w) = 0" and "zs \<noteq> []"
  shows "andThen (suspendInvalidations w) (runAll (map (applySizing h (Suc n) w) zs)) s
           = (None, upd w (\<lambda>x. x\<lparr>invalidationsSuspended := 1,
                                  constraintsInternal := Some (sizingConstraints (last zs)),
                                  invalidationsRequested := True\<rparr>) s)
         \<and> suspendedBatch h (Suc n) w zs s
           = (let c = sizingConstraints (last zs);
                  s1 = logEvent (Recomputed w)
                         (upd w (\<lambda>x. x\<lparr>constraintsInternal := Some c,
                                        invalidationsRequested := False,
                                        cachedConstraints := None\<rparr>) s)
              in case parentWidgetInternal (widgets s w) of
                   Some p \<Rightarrow>
                     if \<not> isEqual c (cachedConstraints (widgets s w))
                     then invalidateConstraints n h p s1
                     else doLayout h (Suc n) w s1
                 | None \<Rightarrow> doLayout h (Suc n) w s1)
         \<and> (invalidationsSuspended (widgets s' w) \<noteq> 0 \<longrightarrow>
              invalidateConstraints (Suc n) h w s'
                = (None, upd w (\<lambda>x. x\<lparr>invalidationsRequested := True\<rparr>) s'))"
proof (intro conjI impI)
  let ?s1 = "upd w (\<lambda>x. x\<lparr>invalidationsSuspended := invalidationsSuspended x + 1\<rparr>) s"
  let ?c = "sizingConstraints (last zs)"
  let ?s2 = "upd w (\<lambda>x. x\<lparr>constraintsInternal := Some ?c, invalidationsRequested := True\<rparr>) ?s1"
  let ?s3 = "upd w (\<lambda>x. x\<lparr>invalidationsSuspended := invalidationsSuspended x - 1\<rparr>) ?s2"
  have s1: "invalidationsSuspended (widgets ?s1 w) \<noteq> 0"
    using assms(1) by (simp add: widgets_upd)
  have ops: "runAll (map (applySizing h (Suc n) w) zs) ?s1 = (None, ?s2)"
    by (rule runAll_suspended[OF s1 assms(2)])
  show "andThen (suspendInvalidations w) (runAll (map (applySizing h (Suc n) w) zs)) s
           = (None, upd w (\<lambda>x. x\<lparr>invalidationsSuspended := 1,
                                  constraintsInternal := Some (sizingConstraints (last zs)),
                                  invalidationsRequested := True\<rparr>) s)"
    using ops assms(1) by (simp add: andThen_def suspendInvalidations_def upd_upd) (simp add: upd_def)
  have s3: "?s3 = upd w (\<lambda>x. x\<lparr>constraintsInternal := Some ?c, invalidationsRequested := True\<rparr>) s"
    using assms(1) by (simp add: upd_def fun_eq_iff)
  have z3: "invalidationsSuspended (widgets ?s3 w) = 0"
    and c3: "constraintsInternal (widgets ?s3 w) = Some ?c"
    and r3: "invalidationsRequested (widgets ?s3 w)"
    using assms(1) by (simp_all add: widgets_upd)
  have "suspendedBatch h (Suc n) w zs s = invalidateConstraints (Suc n) h w ?s3"
    unfolding suspendedBatch_def andThen_def suspendInvalidations_def
    using z3 r3
    by (simp add: ops resumeInvalidations_def Let_def del: invalidateConstraints.simps)
  also have "\<dots> = (let s1 = logEvent (Recomputed w)
                       (upd w (\<lambda>x. x\<lparr>invalidationsRequested := False,
                                      cachedConstraints := None\<rparr>) ?s3)
            in case parentWidgetInternal (widgets ?s3 w) of
                 Some p \<Rightarrow>
                   if \<not> isEqual ?c (cachedConstraints (widgets ?s3 w))
                   then invalidateConstraints n h p s1
                   else doLayout h (Suc n) w s1
               | None \<Rightarrow> doLayout h (Suc n) w s1)"
    by (rule invalidateConstraints_pass[OF z3 c3])
  also have "\<dots> = (let c = sizingConstraints (last zs);
                  s1 = logEvent (Recomputed w)
                         (upd w (\<lambda>x. x\<lparr>constraintsInternal := Some c,
                                        invalidationsRequested := False,
                                        cachedConstraints := None\<rparr>) s)
              in case parentWidgetInternal (widgets s w) of
                   Some p \<Rightarrow>
                     if \<not> isEqual c (cachedConstraints (widgets s w))
                     then invalidateConstraints n h p s1
                     else doLayout h (Suc n) w s1
                 | None \<Rightarrow> doLayout h (Suc n) w s1)"
    unfolding s3 by (simp add: Let_def widgets_upd upd_upd split: option.splits)
  finally show "suspendedBatch h (Suc n) w zs s
           = (let c = sizingConstraints (last zs);
                  s1 = logEvent (Recomputed w)
                         (upd w (\<lambda>x. x\<lparr>constraintsInternal := Some c,
                                        invalidationsRequested := False,
                                        cachedConstraints := None\<rparr>) s)
              in case parentWidgetInternal (widgets s w) of
                   Some p \<Rightarrow>
                     if \<not> isEqual c (cachedConstraints (widgets s w))
                     then invalidateConstraints n h p s1
                     else doLayout h (Suc n) w s1
                 | None \<Rightarrow> doLayout h (Suc n) w s1)" .
next
  assume "invalidationsSuspended (widgets s' w) \<noteq> 0"
  then show "invalidateConstraints (Suc n) h w s'
                = (None, upd w (\<lambda>x. x\<lparr>invalidationsRequested := True\<rparr>) s')"
    by simp
qed

theorem suspended_batch_one_pass_witness:
  "invalidationsSuspended (widgets boxWithLeaf 2) = 0 \<and> twoSizings \<noteq> []
   \<and> trace (snd (andThen (suspendInvalidations 2)
                    (runAll (map (applySizing noHooks enough 2) twoSizings)) boxWithLeaf))
       = trace boxWithLeaf
   \<and> suspendedBatch noHooks enough 2 twoSizings boxWithLeaf
       = invalidateConstraints (Suc (Suc (Suc 0))) noHooks 1
           (logEvent (Recomputed 2)
              (upd 2 (\<lambda>x. x\<lparr>constraintsInternal := Some (sizingConstraints (last twoSizings)),
                             invalidationsRequested := False,
                             cachedConstraints := None\<rparr>) boxWithLeaf))
   \<and> fst (suspendedBatch noHooks enough 2 twoSizings boxWithLeaf) = None
   \<and> eventsOf (suspendedBatch noHooks enough 2 twoSizings) boxWithLeaf
       = [Recomputed 2, Recomputed 1, Called OnLayout 1, Called OnResize 2]
   \<and> length (filter (\<lambda>e. e = Recomputed 2)
        (eventsOf (suspendedBatch noHooks enough 2 twoSizings) boxWithLeaf)) = 1
   \<and> cachedConstraints (widgets (snd (suspendedBatch noHooks enough 2 twoSizings boxWithLeaf)) 1)
       = Some (sizingConstraints (last twoSizings))
   \<and> invalidateConstraints enough noHooks 2 nestedSuspension
       = (None, upd 2 (\<lambda>x. x\<lparr>invalidationsRequested := True\<rparr>) nestedSuspension)"
proof -
  have z: "invalidationsSuspended (widgets boxWithLeaf 2) = 0"
    by (rule boxWithLeaf_facts)
  have ne: "twoSizings \<noteq> []" by (simp add: twoSizings_def)
  have e: "enough = Suc (Suc (Suc (Suc 0)))" by (simp add: enough_def)
  have p: "invalidationsSuspended (widgets nestedSuspension 2) \<noteq> 0"
    by (simp add: nestedSuspension_def suspendInvalidations_def widgets_upd boxWithLeaf_facts)
  have l: "sizingConstraints (last twoSizings)
             = \<lparr>minimum = \<lparr>width = 5, height = 5\<rparr>, preferred = \<lparr>width = 7, height = 7\<rparr>\<rparr>"
    by (simp add: twoSizings_def)
  note t = suspended_batch_one_pass[OF z ne, of noHooks "Suc (Suc (Suc 0))" nestedSuspension,
      folded e]
  have a: "trace (snd (andThen (suspendInvalidations 2)
                    (runAll (map (applySizing noHooks enough 2) twoSizings)) boxWithLeaf))
       = trace boxWithLeaf"
    using t[THEN conjunct1] by (simp add: upd_def)
  have b: "suspendedBatch noHooks enough 2 twoSizings boxWithLeaf
       = invalidateConstraints (Suc (Suc (Suc 0))) noHooks 1
           (logEvent (Recomputed 2)
              (upd 2 (\<lambda>x. x\<lparr>constraintsInternal := Some (sizingConstraints (last twoSizings)),
                             invalidationsRequested := False,
                             cachedConstraints := None\<rparr>) boxWithLeaf))"
    using t[THEN conjunct2, THEN conjunct1]
    by (simp add: Let_def l boxWithLeaf_facts isEqual_def zeroConstraints_def zeroSize_def
          del: invalidateConstraints.simps)
  have c: "invalidateConstraints enough noHooks 2 nestedSuspension
       = (None, upd 2 (\<lambda>x. x\<lparr>invalidationsRequested := True\<rparr>) nestedSuspension)"
    using t[THEN conjunct2, THEN conjunct2] p by blast
  have d: "fst (suspendedBatch noHooks enough 2 twoSizings boxWithLeaf) = None"
    by (rule boxWithLeaf_batch)
  have f: "eventsOf (suspendedBatch noHooks enough 2 twoSizings) boxWithLeaf
       = [Recomputed 2, Recomputed 1, Called OnLayout 1, Called OnResize 2]"
    by (rule boxWithLeaf_batch)
  have g: "length (filter (\<lambda>e. e = Recomputed 2)
        (eventsOf (suspendedBatch noHooks enough 2 twoSizings) boxWithLeaf)) = 1"
    unfolding f by simp
  have k: "cachedConstraints
             (widgets (snd (suspendedBatch noHooks enough 2 twoSizings boxWithLeaf)) 1)
       = Some (sizingConstraints (last twoSizings))"
    unfolding l by (rule boxWithLeaf_batch)
  show ?thesis
    by (intro conjI) (rule z ne a b c d f g k)+
qed

subsection \<open>The guard of the notification passes\<close>

lemma inNotification_Suc:
  "inNotification n s w = Inr b \<Longrightarrow> inNotification (Suc n) s w = Inr b"
proof (induction n arbitrary: w)
  case 0
  then show ?case by simp
next
  case (Suc n)
  show ?case
  proof (cases "notificationDepth (widgets s w) \<noteq> 0")
    case True
    with Suc.prems show ?thesis by simp
  next
    case False
    show ?thesis
    proof (cases "parentWidgetInternal (widgets s w)")
      case None
      with False Suc.prems show ?thesis by simp
    next
      case (Some p)
      with False Suc.prems have "inNotification n s p = Inr b" by simp
      then have "inNotification (Suc n) s p = Inr b" by (rule Suc.IH)
      with False Some show ?thesis
        by (simp del: inNotification.simps add: inNotification.simps(2)[of "Suc n"])
    qed
  qed
qed

lemma inNotification_mono:
  "inNotification n s w = Inr b \<Longrightarrow> n \<le> m \<Longrightarrow> inNotification m s w = Inr b"
  by (induction m) (auto simp: le_Suc_eq dest: inNotification_Suc simp del: inNotification.simps)

lemma chain_inNotification:
  "depthNonzeroUpChain s w \<Longrightarrow> \<exists>k. inNotification k s w = Inr True"
proof (induction rule: depthNonzeroUpChain.induct)
  case (here s w)
  then have "inNotification (Suc 0) s w = Inr True" by simp
  then show ?case by blast
next
  case (above s w p)
  then obtain k where k: "inNotification k s p = Inr True" by blast
  have "inNotification (Suc k) s w = Inr True"
    using above.hyps(1) k by simp
  then show ?case by blast
qed

lemma guarded_return:
  assumes "inNotification n s w = Inr True"
  shows "processWasShown n h w s = (None, s)"
    and "processWillHide n h w s = (None, s)"
    and "processOnResize n h w s = (None, s)"
  using assms by (cases n; simp)+

lemma callOnEach_same:
  "(\<And>c s. snd (method c s) = s) \<Longrightarrow> snd (callOnEach method w cs s) = s"
proof (induction cs)
  case Nil
  then show ?case by simp
next
  case (Cons c cs)
  have "snd (method c s) = s" by (rule Cons.prems)
  then show ?case using Cons by (cases "method c s") (auto split: option.splits)
qed

lemma processWasHidden_same: "snd (processWasHidden n w s) = s"
  by (induction n arbitrary: w s) (simp_all add: callOnVisibleChildren_def callOnEach_same)

lemma callOnEach_hookCalls:
  "(\<And>c s. hookCalls (snd (method c s)) = hookCalls s)
     \<Longrightarrow> hookCalls (snd (callOnEach method w cs s)) = hookCalls s"
proof (induction cs arbitrary: s)
  case Nil
  then show ?case by simp
next
  case (Cons c cs)
  show ?case
  proof (cases "method c s")
    case (Pair r s')
    have "hookCalls s' = hookCalls s" using Cons.prems[of c s] Pair by simp
    then show ?thesis using Pair Cons.IH[OF Cons.prems] by (auto split: option.splits)
  qed
qed

lemma processWillShow_hookCalls: "hookCalls (snd (processWillShow n w s)) = hookCalls s"
proof (induction n arbitrary: w s)
  case 0
  then show ?case by simp
next
  case (Suc n)
  have "hookCalls (snd (callOnVisibleChildren (processWillShow n) w s)) = hookCalls s"
    unfolding callOnVisibleChildren_def by (rule callOnEach_hookCalls) (rule Suc.IH)
  then show ?case
    by (cases "callOnVisibleChildren (processWillShow n) w s")
       (auto simp: andThen_def setShowing_def hookCalls_def upd_def logEvent_def split: option.splits)
qed

lemma insideHook_facts0:
  "notificationDepth (widgets insideHook 1) = 1"
  "parentWidgetInternal (widgets insideHook 2) = Some 1"
  "notificationDepth (widgets insideHook 2) = 0"
  "visibleInternal (widgets insideHook 2)"
  "\<not> isShowingInternal (widgets insideHook 2)"
  "childrenInternal (widgets insideHook 2) = []"
  by (simp_all add: scenario_defs model_defs)

lemmas insideHook_facts = insideHook_facts0 insideHook_facts0[unfolded One_nat_def]

theorem willShow_ignores_notification:
  "inNotification enough insideHook 2 = Inr True
   \<and> \<not> isShowing insideHook 2
   \<and> fst (processWillShow enough 2 insideHook) = None
   \<and> isShowing (snd (processWillShow enough 2 insideHook)) 2
   \<and> processWillShow enough 2 insideHook \<noteq> (None, insideHook)"
proof -
  have a: "inNotification enough insideHook 2 = Inr True"
    by (simp add: enough_def insideHook_facts)
  have b: "\<not> isShowing insideHook 2" by (simp add: isShowing_def insideHook_facts)
  have c: "fst (processWillShow enough 2 insideHook) = None
           \<and> isShowing (snd (processWillShow enough 2 insideHook)) 2"
    by (simp add: enough_def insideHook_facts isShowing_def callOnVisibleChildren_def andThen_def
          setShowing_def upd_def logEvent_def)
  have d: "processWillShow enough 2 insideHook \<noteq> (None, insideHook)"
    using b c by (metis snd_conv)
  show ?thesis using a b c d by blast
qed

text \<open>
  C4, as amended. While the notification depth is nonzero on the widget or on an ancestor,
  the was-shown and will-hide passes (and the resize pass) return at once, with enough fuel
  to find that ancestor: no hook is called and the state is unchanged. The was-hidden pass
  never changes the state. The will-show pass has no guard: it calls no hook, but it
  does set the showing flags.
\<close>

theorem guarded_passes_return:
  assumes "depthNonzeroUpChain s w"
  shows "(\<exists>k. \<forall>n\<ge>k. processWasShown n h w s = (None, s)
                   \<and> processWillHide n h w s = (None, s)
                   \<and> processOnResize n h w s = (None, s))
         \<and> snd (processWasHidden m w s) = s
         \<and> hookCalls (snd (processWillShow m w s)) = hookCalls s"
proof -
  obtain k where k: "inNotification k s w = Inr True"
    using chain_inNotification[OF assms] by blast
  have "\<forall>n\<ge>k. processWasShown n h w s = (None, s)
                   \<and> processWillHide n h w s = (None, s)
                   \<and> processOnResize n h w s = (None, s)"
    using guarded_return[OF inNotification_mono[OF k]] by blast
  then show ?thesis
    using processWasHidden_same processWillShow_hookCalls by blast
qed

theorem guarded_passes_return_witness:
  "(\<exists>k. \<forall>n\<ge>k. processWasShown n throwingHooks 2 insideHook = (None, insideHook)
                   \<and> processWillHide n throwingHooks 2 insideHook = (None, insideHook)
                   \<and> processOnResize n throwingHooks 2 insideHook = (None, insideHook))
   \<and> snd (processWasHidden enough 2 insideHook) = insideHook
   \<and> hookCalls (snd (processWillShow enough 2 insideHook)) = hookCalls insideHook
   \<and> processWasShown enough throwingHooks 2 insideHook = (None, insideHook)
   \<and> processWillHide enough throwingHooks 2 insideHook = (None, insideHook)"
proof -
  have "depthNonzeroUpChain insideHook 1"
    by (rule depthNonzeroUpChain.here) (simp add: insideHook_facts)
  then have chain: "depthNonzeroUpChain insideHook 2"
    by (rule depthNonzeroUpChain.above[rotated]) (simp add: insideHook_facts)
  have ev: "processWasShown enough throwingHooks 2 insideHook = (None, insideHook)
            \<and> processWillHide enough throwingHooks 2 insideHook = (None, insideHook)"
    by (simp add: enough_def insideHook_facts)
  show ?thesis
    using guarded_passes_return[OF chain, of throwingHooks enough] ev by simp
qed

subsection \<open>Showing again\<close>

lemma nearest_findParentWidget:
  "nearestWidgetElement n s cur = Inr (Some cp) \<Longrightarrow> widgetMap s cp = Some p
     \<Longrightarrow> findParentWidget n s cur = Inr p"
proof (induction n arbitrary: cur)
  case 0
  then show ?case by simp
next
  case (Suc n)
  then show ?case by (cases cur) (auto split: if_splits)
qed

lemma nearest_registered:
  "nearestWidgetElement n s cur = Inr (Some cp) \<Longrightarrow> widgetMap s cp \<noteq> None"
proof (induction n arbitrary: cur)
  case 0
  then show ?case by simp
next
  case (Suc n)
  then show ?case by (cases cur) (auto split: if_splits)
qed

lemma shapeI: "(\<And>s. shape (snd (f s)) = shape s) \<Longrightarrow> keepsShape f"
  by (simp add: keepsShape_def)

lemma shapeD: "keepsShape f \<Longrightarrow> shape (snd (f s)) = shape s"
  by (simp add: keepsShape_def)

lemma shapeD': "keepsShape f \<Longrightarrow> f s = (r, s') \<Longrightarrow> shape s' = shape s"
  by (metis shapeD snd_conv)

lemma shape_upd_other:
  "(\<And>x. element (f x) = element x \<and> parentWidgetInternal (f x) = parentWidgetInternal x
        \<and> visibleInternal (f x) = visibleInternal x \<and> isRoot (f x) = isRoot x)
     \<Longrightarrow> shape (upd w f s) = shape s"
  by (auto simp: shape_def upd_def fun_eq_iff)

lemma shape_logEvent: "shape (logEvent e s) = shape s"
  by (simp add: shape_def logEvent_def)

lemma shape_andThen: "keepsShape f \<Longrightarrow> keepsShape g \<Longrightarrow> keepsShape (andThen f g)"
  unfolding keepsShape_def andThen_def
  by (auto split: prod.splits option.splits) (metis snd_conv)+

lemma shape_if: "keepsShape f \<Longrightarrow> keepsShape g \<Longrightarrow> keepsShape (\<lambda>s. if c s then f s else g s)"
  by (simp add: keepsShape_def)

lemma shape_if': "keepsShape f \<Longrightarrow> keepsShape g \<Longrightarrow> keepsShape (if c then f else g)"
  by (simp add: keepsShape_def)

lemma shape_skip: "keepsShape skip" "keepsShape (throw e)" "keepsShape (assert c m)"
  "keepsShape (\<lambda>s. (r, s))"
  by (simp_all add: keepsShape_def skip_def throw_def assert_def)

lemma shape_callHook:
  "(\<And>k w. keepsShape (h k w)) \<Longrightarrow> keepsShape (callHook h k w)"
  by (simp add: keepsShape_def callHook_def logEvent_def shape_def)

lemma shape_notify:
  assumes "\<And>k w. keepsShape (h k w)"
  shows "keepsShape (notify h k w)"
proof (rule shapeI)
  fix s :: state
  let ?s1 = "upd w (\<lambda>x. x\<lparr>notificationDepth := notificationDepth x + 1\<rparr>) s"
  obtain r s2 where c: "callHook h k w ?s1 = (r, s2)" by (cases "callHook h k w ?s1")
  have "shape s2 = shape ?s1"
    using shapeD'[OF shape_callHook c] assms by blast
  then have "shape s2 = shape s" by (simp add: shape_upd_other)
  then show "shape (snd (notify h k w s)) = shape s"
    using c by (simp add: notify_def shape_upd_other)
qed

lemma shape_callOnEach:
  "(\<And>c. keepsShape (f c)) \<Longrightarrow> keepsShape (callOnEach f w cs)"
proof (induction cs)
  case Nil
  then show ?case by (simp add: keepsShape_def)
next
  case (Cons c cs)
  have a: "keepsShape (f c)" and b: "keepsShape (callOnEach f w cs)"
    using Cons by auto
  show ?case
  proof (rule shapeI)
    fix s :: state
    show "shape (snd (callOnEach f w (c # cs) s)) = shape s"
      using shapeD'[OF a] shapeD[OF b]
      by (cases "f c s") (auto split: option.splits)
  qed
qed

lemma shape_callOnVisibleChildren:
  "(\<And>c. keepsShape (f c)) \<Longrightarrow> keepsShape (callOnVisibleChildren f w)"
  using shape_callOnEach by (auto simp: keepsShape_def callOnVisibleChildren_def)

lemma shape_small:
  "keepsShape (setShowing w b)"
  "keepsShape (storeScrollPositions w)"
  "keepsShape (restoreScrollPositions w)"
  by (auto simp: keepsShape_def setShowing_def storeScrollPositions_def restoreScrollPositions_def
        shape_def upd_def logEvent_def Let_def fun_eq_iff split: option.splits)

lemmas shape_intros = shape_andThen shape_if shape_if' shape_skip shape_callHook shape_notify
  shape_callOnVisibleChildren shape_small

lemma shape_processWillShow: "keepsShape (processWillShow n w)"
proof (induction n arbitrary: w)
  case 0
  then show ?case by (simp add: keepsShape_def)
next
  case (Suc n)
  have "keepsShape (andThen (callOnVisibleChildren (processWillShow n) w) (setShowing w True))"
    by (intro shape_intros Suc)
  then show ?case by (simp add: keepsShape_def)
qed

lemma shape_processWasShown:
  assumes "\<And>k w. keepsShape (h k w)"
  shows "keepsShape (processWasShown n h w)"
proof (induction n arbitrary: w)
  case 0
  then show ?case by (simp add: keepsShape_def)
next
  case (Suc n)
  have "keepsShape (andThen (restoreScrollPositions w)
            (andThen (notify h WasShown w)
               (callOnVisibleChildren (processWasShown n h) w)))"
    by (intro shape_intros Suc assms)
  then show ?case by (simp add: keepsShape_def split: sum.splits bool.splits)
qed

lemma shape_processOnResize:
  assumes "\<And>k w. keepsShape (h k w)"
  shows "keepsShape (processOnResize n h w)"
proof (induction n arbitrary: w)
  case 0
  then show ?case by (simp add: keepsShape_def)
next
  case (Suc n)
  have "keepsShape (andThen (notify h OnResize w)
                 (callOnVisibleChildren (processOnResize n h) w))"
    by (intro shape_intros Suc assms)
  then show ?case by (simp add: keepsShape_def split: sum.splits bool.splits)
qed

lemma shape_doResize:
  assumes "\<And>k w. keepsShape (h k w)"
  shows "keepsShape (doResize h n w)"
proof -
  have "keepsShape (callOnVisibleChildren (processOnResize n h) w)"
    by (intro shape_intros shape_processOnResize assms)
  then show ?thesis by (simp add: keepsShape_def doResize_def split: sum.splits bool.splits)
qed

lemma shape_doLayout:
  assumes "\<And>k w. keepsShape (h k w)"
  shows "keepsShape (doLayout h n w)"
proof -
  have "keepsShape (andThen (notify h OnLayout w) (doResize h n w))"
    by (intro shape_intros shape_doResize assms)
  then show ?thesis by (simp add: keepsShape_def doLayout_def)
qed

lemma shape_foldVisible:
  "(\<And>c. keepsShape (childConstraints c))
     \<Longrightarrow> keepsShape (foldVisible childConstraints step w cs acc)"
proof (induction cs arbitrary: acc)
  case Nil
  then show ?case by (simp add: keepsShape_def)
next
  case (Cons c cs)
  have a: "keepsShape (childConstraints c)" using Cons.prems .
  have b: "\<And>acc. keepsShape (foldVisible childConstraints step w cs acc)"
    using Cons by blast
  show ?case
  proof (rule shapeI)
    fix s :: state
    show "shape (snd (foldVisible childConstraints step w (c # cs) acc s)) = shape s"
      using shapeD'[OF a] shapeD[OF b]
      by (cases "childConstraints c s") (auto split: sum.splits)
  qed
qed

lemma shape_calculateConstraints:
  "(\<And>c. keepsShape (childConstraints c)) \<Longrightarrow> keepsShape (calculateConstraints childConstraints w)"
  using shape_foldVisible[of childConstraints]
  by (auto simp: keepsShape_def calculateConstraints_def split: wkind.splits)

lemma shape_constraints: "keepsShape (constraints n w)"
proof (induction n arbitrary: w)
  case 0
  then show ?case by (simp add: keepsShape_def)
next
  case (Suc n)
  have c: "keepsShape (calculateConstraints (constraints n) w)"
    by (rule shape_calculateConstraints) (rule Suc)
  show ?case
  proof (rule shapeI)
    fix s :: state
    show "shape (snd (constraints (Suc n) w s)) = shape s"
      using shapeD'[OF c, of s]
      by (cases "calculateConstraints (constraints n) w s")
         (auto split: option.splits sum.splits simp: shape_upd_other)
  qed
qed

lemma shape_hasNonZeroConstraints: "keepsShape (hasNonZeroConstraints n w)"
proof (rule shapeI)
  fix s :: state
  show "shape (snd (hasNonZeroConstraints n w s)) = shape s"
    using shapeD'[OF shape_constraints, of n w s]
    by (cases "constraints n w s") (auto simp: hasNonZeroConstraints_def split: sum.splits)
qed

lemma shape_invalidateConstraints:
  assumes "\<And>k w. keepsShape (h k w)"
  shows "keepsShape (invalidateConstraints n h w)"
proof (induction n arbitrary: w)
  case 0
  then show ?case by (simp add: keepsShape_def)
next
  case (Suc n)
  show ?case
  proof (rule shapeI)
    fix s :: state
    let ?s1 = "logEvent (Recomputed w)
                 (upd w (\<lambda>x. x\<lparr>invalidationsRequested := False, cachedConstraints := None\<rparr>) s)"
    have s1: "shape ?s1 = shape s" by (simp add: shape_logEvent shape_upd_other)
    obtain r s2 where c: "constraints (Suc n) w ?s1 = (r, s2)"
      by (cases "constraints (Suc n) w ?s1")
    have s2: "shape s2 = shape s"
      using shapeD'[OF shape_constraints c] s1 by simp
    have l: "shape (snd (doLayout h (Suc n) w s2)) = shape s"
      using shapeD[OF shape_doLayout, of h] assms s2 by simp
    have i: "\<And>p. shape (snd (invalidateConstraints n h p s2)) = shape s"
      using shapeD[OF Suc] s2 by simp
    show "shape (snd (invalidateConstraints (Suc n) h w s)) = shape s"
      using c s2 l i
      by (auto simp: Let_def shape_upd_other split: sum.splits option.splits
               simp del: constraints.simps)
  qed
qed

lemma shape_invalidateParentOr:
  assumes "\<And>k w. keepsShape (h k w)" and "keepsShape otherwise"
  shows "keepsShape (invalidateParentOr h n w otherwise)"
proof (rule shapeI)
  fix s :: state
  obtain r s' where c: "hasNonZeroConstraints n w s = (r, s')"
    by (cases "hasNonZeroConstraints n w s")
  have s': "shape s' = shape s" using shapeD'[OF shape_hasNonZeroConstraints c] .
  show "shape (snd (invalidateParentOr h n w otherwise s)) = shape s"
    using c s' shapeD[OF shape_invalidateConstraints, of h] assms(1) shapeD[OF assms(2)]
    by (auto simp: invalidateParentOr_def split: option.splits sum.splits bool.splits)
qed

lemma shape_incrementLoop: "keepsShape (incrementLoop n count el)"
proof (induction n arbitrary: el)
  case 0
  then show ?case by (simp add: keepsShape_def)
next
  case (Suc n)
  show ?case
    using Suc by (auto simp: keepsShape_def shape_def split: option.splits)
qed

lemma shape_incrementWidgetCounter: "keepsShape (incrementWidgetCounter n pe el)"
  using shape_incrementLoop by (auto simp: keepsShape_def incrementWidgetCounter_def)

lemma andThen_NoneD:
  "andThen f g s = (None, s2) \<Longrightarrow> \<exists>s1. f s = (None, s1) \<and> g s1 = (None, s2)"
  by (cases "f s") (auto simp: andThen_def split: option.splits)

lemma assert_NoneD: "assert c m s = (None, s') \<Longrightarrow> c \<and> s' = s"
  by (auto simp: assert_def split: if_splits)

lemma walk_stable:
  assumes "widgetMap s' = widgetMap s"
    and "\<And>e. e \<noteq> el \<Longrightarrow> parentElement s' e = parentElement s e \<and> shadowHost s' e = shadowHost s e"
    and "widgetMap s el \<noteq> None"
  shows "nearestWidgetElement n s' cur = nearestWidgetElement n s cur"
proof (induction n arbitrary: cur)
  case 0
  show ?case by simp
next
  case (Suc n)
  show ?case
  proof (cases cur)
    case None
    then show ?thesis by simp
  next
    case (Some e)
    show ?thesis
    proof (cases "widgetMap s e \<noteq> None")
      case True
      with Some assms(1) show ?thesis by simp
    next
      case False
      with assms(3) have "e \<noteq> el" by auto
      then have "parentElement s' e = parentElement s e \<and> shadowHost s' e = shadowHost s e"
        by (rule assms(2))
      then have "parentElementOrShadowHost s' e = parentElementOrShadowHost s e"
        by (auto simp: parentElementOrShadowHost_def split: option.splits)
      with Some False assms(1) Suc.IH show ?thesis by simp
    qed
  qed
qed

lemma shape_shownUnder_cong:
  "shape x = shape y \<Longrightarrow> shape (shownUnder w pe x) = shape (shownUnder w pe y)"
  by (auto simp: shape_def shownUnder_def placeUnder_def upd_def fun_eq_iff)


lemma shape_shownUnder_facts:
  assumes "shape s1 = shape (shownUnder w pe s)"
  shows "visibleInternal (widgets s1 w)"
    and "element (widgets s1 w) = element (widgets s w)"
    and "parentElement s1 (element (widgets s w)) = Some pe"
    and "widgetMap s1 = widgetMap s"
    and "isRoot (widgets s1 w) = isRoot (widgets s w)"
    and "parentWidgetInternal (widgets s1 w) = parentWidgetInternal (widgets s w)"
    and "\<And>e. e \<noteq> element (widgets s w) \<Longrightarrow>
           parentElement s1 e = parentElement s e \<and> shadowHost s1 e = shadowHost s e"
  using assms
  by (auto simp: shape_def shownUnder_def placeUnder_def upd_def fun_eq_iff split: if_splits)

lemma reparent_done:
  assumes "reparent n w pe ib s = (None, s')"
  shows "shape s' = shape (if parentElement s (element (widgets s w)) = Some pe then s
                          else placeUnder pe (element (widgets s w)) s)"
proof (cases "parentElement s (element (widgets s w)) = Some pe")
  case True
  with assms show ?thesis by (simp add: reparent_def Let_def)
next
  case False
  let ?el = "element (widgets s w)"
  let ?inc = "if \<not> externallyManaged (widgets s w) then incrementWidgetCounter n pe ?el else skip"
  let ?ins = "case ib of Some r \<Rightarrow> originalInsertBefore n pe ?el (Some r)
              | None \<Rightarrow> originalAppendChild n pe ?el"
  from assms False have "andThen ?inc ?ins s = (None, s')"
    by (simp add: reparent_def Let_def)
  then obtain si where i: "?inc s = (None, si)" and p: "?ins si = (None, s')"
    using andThen_NoneD by blast
  have "keepsShape ?inc" by (intro shape_intros shape_incrementWidgetCounter)
  then have si: "shape si = shape s" using i by (rule shapeD')
  have "s' = placeUnder pe ?el si"
    using p
    by (cases ib)
       (auto simp: originalAppendChild_def originalInsertBefore_def
             split: sum.splits bool.splits option.splits if_splits)
  then have "shape s' = shape (placeUnder pe ?el s)"
    using si by (auto simp: shape_def placeUnder_def)
  with False show ?thesis by simp
qed

lemma showWidgetInternal_done:
  assumes quiet: "\<And>k v. keepsShape (h k v)"
    and fin: "showWidgetInternal h n w pe ib s = (None, s1)"
  shows "shape s1 = shape (shownUnder w pe s)"
    and "\<exists>cp. nearestWidgetElement n s (Some pe) = Inr cp
           \<and> (if isRoot (widgets s w) then cp = None
               else (\<exists>c. cp = Some c \<and> widgetMap s c = parentWidgetInternal (widgets s w)))"
proof -
  let ?vis = "\<lambda>s. (None :: error option, upd w (\<lambda>x. x\<lparr>visibleInternal := True\<rparr>) s)"
  let ?hid = "\<lambda>s. (None :: error option,
                  s\<lparr>hiddenClass := (hiddenClass s)(element (widgets s w) := False)\<rparr>)"
  let ?chain = "\<lambda>wasVisible.
       andThen ?vis
         (andThen
            (\<lambda>s. if \<not> wasVisible \<and> parentIsShowing s w then processWillShow n w s
                  else (None, s))
            (andThen ?hid
               (andThen (reparent n w pe ib)
                  (andThen
                     (\<lambda>s. if \<not> wasVisible \<and> parentIsShowing s w
                           then processWasShown n h w s
                           else (None, s))
                     (invalidateParentOr h n w (processOnResize n h w))))))"
  let ?body = "\<lambda>s. let wasVisible = visibleInternal (widgets s w) in
               if wasVisible \<and> parentElement s (element (widgets s w)) = Some pe
               then (None, s)
               else ?chain wasVisible s"
  let ?check = "\<lambda>cp. if isRoot (widgets s w)
             then assert (cp = None) ''Attempt to show root widget under another widget''
             else assert (case cp of
                            None \<Rightarrow> False
                          | Some c \<Rightarrow> widgetMap s c = parentWidgetInternal (widgets s w))
                    ''Attempt to show under node belonging to alien widget''"
  obtain cp where N: "nearestWidgetElement n s (Some pe) = Inr cp"
    using fin by (cases "nearestWidgetElement n s (Some pe)") (auto simp: showWidgetInternal_def)
  have "andThen (?check cp) ?body s = (None, s1)"
    using fin N by (simp add: showWidgetInternal_def)
  then obtain s0 where c: "?check cp s = (None, s0)" and b: "?body s0 = (None, s1)"
    using andThen_NoneD by blast
  have s0: "s0 = s" using c by (auto split: if_splits dest: assert_NoneD)
  have ok: "if isRoot (widgets s w) then cp = None
            else (\<exists>c. cp = Some c \<and> widgetMap s c = parentWidgetInternal (widgets s w))"
    using c by (auto split: if_splits option.splits dest!: assert_NoneD)
  show "\<exists>cp. nearestWidgetElement n s (Some pe) = Inr cp
           \<and> (if isRoot (widgets s w) then cp = None
               else (\<exists>c. cp = Some c \<and> widgetMap s c = parentWidgetInternal (widgets s w)))"
    using N ok by blast
  show "shape s1 = shape (shownUnder w pe s)"
  proof (cases "visibleInternal (widgets s w) \<and> parentElement s (element (widgets s w)) = Some pe")
    case True
    with b s0 have "s1 = s" by (simp add: Let_def)
    with True show ?thesis
      by (auto simp: shape_def shownUnder_def upd_def fun_eq_iff)
  next
    case False
    let ?wv = "visibleInternal (widgets s w)"
    have b': "?body s = (None, s1)" using b unfolding s0 .
    have "?chain ?wv s = (None, s1)"
    proof (cases ?wv)
      case True
      with False have "parentElement s (element (widgets s w)) \<noteq> Some pe" by simp
      with b' show ?thesis by (simp add: Let_def)
    next
      case wv: False
      with b' show ?thesis by (simp add: Let_def)
    qed
    then obtain sa sb sc sd se where
      a1: "?vis s = (None, sa)" and
      a2: "(\<lambda>s. if \<not> ?wv \<and> parentIsShowing s w then processWillShow n w s
                  else (None, s)) sa = (None, sb)" and
      a3: "?hid sb = (None, sc)" and
      a4: "reparent n w pe ib sc = (None, sd)" and
      a5: "(\<lambda>s. if \<not> ?wv \<and> parentIsShowing s w then processWasShown n h w s
                  else (None, s)) sd = (None, se)" and
      a6: "invalidateParentOr h n w (processOnResize n h w) se = (None, s1)"
      by (blast dest!: andThen_NoneD)
    have k2: "keepsShape (\<lambda>s. if \<not> ?wv \<and> parentIsShowing s w then processWillShow n w s
                  else (None, s))"
      by (intro shape_intros shape_processWillShow)
    have k5: "keepsShape (\<lambda>s. if \<not> ?wv \<and> parentIsShowing s w then processWasShown n h w s
                  else (None, s))"
      by (intro shape_intros shape_processWasShown quiet)
    have k6: "keepsShape (invalidateParentOr h n w (processOnResize n h w))"
      by (intro shape_invalidateParentOr shape_processOnResize quiet)
    have sa: "sa = upd w (\<lambda>x. x\<lparr>visibleInternal := True\<rparr>) s" using a1 by simp
    have sb: "shape sb = shape sa" using k2 a2 by (rule shapeD')
    have sc: "shape sc = shape sa" using a3 sb by (auto simp: shape_def)
    have sd: "shape sd = shape (if parentElement sc (element (widgets sc w)) = Some pe then sc
                          else placeUnder pe (element (widgets sc w)) sc)"
      by (rule reparent_done[OF a4])
    have se: "shape se = shape sd" using k5 a5 by (rule shapeD')
    have s1: "shape s1 = shape se" using k6 a6 by (rule shapeD')
    have "shape sd = shape (shownUnder w pe s)"
      using sd sc sa
      by (auto simp: shape_def shownUnder_def placeUnder_def upd_def fun_eq_iff split: if_splits)
    with se s1 show ?thesis by simp
  qed
qed

lemma show_noop_when_consistent:
  assumes visible: "visibleInternal (widgets s w)"
    and under: "parentElement s (element (widgets s w)) = Some pe"
    and root: "isRoot (widgets s w) \<Longrightarrow> nearestWidgetElement n s (Some pe) = Inr None"
    and child: "\<not> isRoot (widgets s w) \<Longrightarrow>
        \<exists>cp. nearestWidgetElement n s (Some pe) = Inr (Some cp)
           \<and> widgetMap s cp = parentWidgetInternal (widgets s w)"
  shows "show_op h n w pe before s = (None, s)"
proof (cases "isRoot (widgets s w)")
  case True
  with root visible under show ?thesis
    by (simp add: show_op_def showWidgetInternal_def andThen_def assert_def)
next
  case False
  with child obtain cp where cp: "nearestWidgetElement n s (Some pe) = Inr (Some cp)"
    and m: "widgetMap s cp = parentWidgetInternal (widgets s w)" by blast
  have "widgetMap s cp \<noteq> None"
    by (rule nearest_registered[OF cp])
  then obtain p where p: "widgetMap s cp = Some p" by blast
  have f: "findParentWidget n s (Some pe) = Inr p"
    by (rule nearest_findParentWidget[OF cp p])
  show ?thesis
    using False f cp m p visible under
    by (simp add: show_op_def attach_def showWidgetInternal_def andThen_def assert_def)
qed

text \<open>
  A second \<open>show\<close> that follows a completed first one with the same parent element returns
  the state unchanged when the hooks of the first leave the registry, the DOM parents and
  the parent, visible and root fields alone and the widget is still registered.
\<close>

lemma show_twice:
  assumes quiet: "\<And>k v. keepsShape (h k v)"
    and first: "show_op h n w pe before s = (None, s1)"
    and reg: "widgetMap s1 (element (widgets s1 w)) \<noteq> None"
  shows "show_op h n w pe before' s1 = (None, s1)"
proof -
  obtain s0 where swi: "showWidgetInternal h n w pe before s0 = (None, s1)"
  proof (cases "isRoot (widgets s w)")
    case True
    with first have "showWidgetInternal h n w pe before s = (None, s1)"
      by (simp add: show_op_def)
    then show ?thesis by (rule that)
  next
    case False
    then obtain cw where "andThen (attach h n w cw) (showWidgetInternal h n w pe before) s = (None, s1)"
      using first by (cases "findParentWidget n s (Some pe)") (auto simp: show_op_def)
    then show ?thesis using andThen_NoneD that by blast
  qed
  note sh = showWidgetInternal_done(1)[OF quiet swi]
  note f = shape_shownUnder_facts[OF sh]
  obtain cp where N: "nearestWidgetElement n s0 (Some pe) = Inr cp"
    and ok: "if isRoot (widgets s0 w) then cp = None
             else (\<exists>c. cp = Some c \<and> widgetMap s0 c = parentWidgetInternal (widgets s0 w))"
    using showWidgetInternal_done(2)[OF quiet swi] by blast
  have reg0: "widgetMap s0 (element (widgets s0 w)) \<noteq> None"
    using reg f(2) f(4) by simp
  have N1: "nearestWidgetElement n s1 (Some pe) = Inr cp"
    using walk_stable[where n = n and cur = "Some pe", OF f(4) f(7) reg0] N by simp
  show ?thesis
  proof (rule show_noop_when_consistent)
    show "visibleInternal (widgets s1 w)" by (rule f(1))
    show "parentElement s1 (element (widgets s1 w)) = Some pe" using f(2) f(3) by simp
    show "nearestWidgetElement n s1 (Some pe) = Inr None" if "isRoot (widgets s1 w)"
      using that N1 ok f(5) by simp
    show "\<exists>cp. nearestWidgetElement n s1 (Some pe) = Inr (Some cp)
           \<and> widgetMap s1 cp = parentWidgetInternal (widgets s1 w)" if "\<not> isRoot (widgets s1 w)"
      using that N1 ok f(4) f(5) f(6) by auto
  qed
qed






lemma rootWithChild_facts0:
  "visibleInternal (widgets rootWithChild 2)"
  "element (widgets rootWithChild 2) = 20"
  "parentElement rootWithChild 20 = Some 10"
  "\<not> isRoot (widgets rootWithChild 2)"
  "widgetMap rootWithChild 10 = Some 1"
  "widgetMap rootWithChild 20 = Some 2"
  "parentWidgetInternal (widgets rootWithChild 2) = Some 1"
  "trace rootWithChild = []"
  by (simp_all add: scenario_defs model_defs)

lemmas rootWithChild_facts = rootWithChild_facts0 rootWithChild_facts0[unfolded One_nat_def]





subsection \<open>The notification depth\<close>

lemma keepsI: "(\<And>s. depths (snd (f s)) = depths s) \<Longrightarrow> keepsDepths f"
  by (simp add: keepsDepths_def)

lemma keepsD: "keepsDepths f \<Longrightarrow> depths (snd (f s)) = depths s"
  by (simp add: keepsDepths_def)

lemma keepsD': "keepsDepths f \<Longrightarrow> f s = (r, s') \<Longrightarrow> depths s' = depths s"
  by (metis keepsD snd_conv)

lemma depths_upd_other:
  "(\<And>x. notificationDepth (f x) = notificationDepth x) \<Longrightarrow> depths (upd w f s) = depths s"
  by (auto simp: depths_def upd_def)

lemma depths_logEvent: "depths (logEvent e s) = depths s"
  by (simp add: depths_def logEvent_def)

lemma keeps_andThen: "keepsDepths f \<Longrightarrow> keepsDepths g \<Longrightarrow> keepsDepths (andThen f g)"
  unfolding keepsDepths_def andThen_def
  by (auto split: prod.splits option.splits) (metis snd_conv)+

lemma keeps_if: "keepsDepths f \<Longrightarrow> keepsDepths g \<Longrightarrow> keepsDepths (\<lambda>s. if c s then f s else g s)"
  by (simp add: keepsDepths_def)

lemma keeps_if': "keepsDepths f \<Longrightarrow> keepsDepths g \<Longrightarrow> keepsDepths (if c then f else g)"
  by (simp add: keepsDepths_def)

lemma keeps_skip: "keepsDepths skip" "keepsDepths (throw e)" "keepsDepths (assert c m)"
  "keepsDepths (\<lambda>s. (r, s))"
  by (simp_all add: keepsDepths_def skip_def throw_def assert_def)

lemma keeps_callHook:
  "(\<And>k w. keepsDepths (h k w)) \<Longrightarrow> keepsDepths (callHook h k w)"
  by (simp add: keepsDepths_def callHook_def logEvent_def depths_def)

lemma keeps_notify:
  assumes "\<And>k w. keepsDepths (h k w)"
  shows "keepsDepths (notify h k w)"
proof (rule keepsI)
  fix s :: state
  let ?s1 = "upd w (\<lambda>x. x\<lparr>notificationDepth := notificationDepth x + 1\<rparr>) s"
  obtain r s2 where c: "callHook h k w ?s1 = (r, s2)" by (cases "callHook h k w ?s1")
  have "depths s2 = depths ?s1"
    using keepsD'[OF keeps_callHook c] assms by blast
  then show "depths (snd (notify h k w s)) = depths s"
    using c by (auto simp: notify_def depths_def upd_def fun_eq_iff)
qed

lemma keeps_callOnEach:
  "(\<And>c. keepsDepths (method c)) \<Longrightarrow> keepsDepths (callOnEach method w cs)"
proof (induction cs)
  case Nil
  then show ?case by (simp add: keepsDepths_def)
next
  case (Cons c cs)
  have a: "keepsDepths (method c)" and b: "keepsDepths (callOnEach method w cs)"
    using Cons by auto
  show ?case
  proof (rule keepsI)
    fix s
    show "depths (snd (callOnEach method w (c # cs) s)) = depths s"
      using keepsD'[OF a] keepsD[OF b]
      by (cases "method c s") (auto split: option.splits)
  qed
qed

lemma keeps_callOnVisibleChildren:
  "(\<And>c. keepsDepths (method c)) \<Longrightarrow> keepsDepths (callOnVisibleChildren method w)"
  using keeps_callOnEach by (auto simp: keepsDepths_def callOnVisibleChildren_def)

lemma keeps_small:
  "keepsDepths (setShowing w b)"
  "keepsDepths (storeScrollPositions w)"
  "keepsDepths (restoreScrollPositions w)"
  "keepsDepths (suspendInvalidations w)"
  "keepsDepths (originalRemoveChild this child)"
  "keepsDepths (originalRemoveChildren this)"
  "keepsDepths (originalAppendChild n this node)"
  "keepsDepths (originalInsertBefore n this node ref)"
  "keepsDepths (markAsRoot w)"
  "keepsDepths (setHideOnDetach w)"
  "keepsDepths (markAsExternallyManaged w)"
  by (auto simp: keepsDepths_def setShowing_def storeScrollPositions_def restoreScrollPositions_def
        suspendInvalidations_def originalRemoveChild_def originalRemoveChildren_def
        originalAppendChild_def originalInsertBefore_def placeUnder_def markAsRoot_def
        setHideOnDetach_def markAsExternallyManaged_def andThen_def assert_def
        depths_def upd_def logEvent_def Let_def split: option.splits sum.splits bool.splits)

lemmas keeps_intros = keeps_andThen keeps_if keeps_if' keeps_skip keeps_callHook keeps_notify
  keeps_callOnVisibleChildren keeps_small

lemma keeps_processWillShow: "keepsDepths (processWillShow n w)"
proof (induction n arbitrary: w)
  case 0
  then show ?case by (simp add: keepsDepths_def)
next
  case (Suc n)
  have "keepsDepths (andThen (callOnVisibleChildren (processWillShow n) w) (setShowing w True))"
    by (intro keeps_intros Suc)
  then show ?case by (simp add: keepsDepths_def)
qed

lemma keeps_processWasHidden: "keepsDepths (processWasHidden n w)"
proof (induction n arbitrary: w)
  case 0
  then show ?case by (simp add: keepsDepths_def)
next
  case (Suc n)
  have "keepsDepths (callOnVisibleChildren (processWasHidden n) w)"
    by (intro keeps_intros Suc)
  then show ?case by (simp add: keepsDepths_def)
qed

lemma keeps_processWasShown:
  assumes "\<And>k w. keepsDepths (h k w)"
  shows "keepsDepths (processWasShown n h w)"
proof (induction n arbitrary: w)
  case 0
  then show ?case by (simp add: keepsDepths_def)
next
  case (Suc n)
  have "keepsDepths (andThen (restoreScrollPositions w)
            (andThen (notify h WasShown w)
               (callOnVisibleChildren (processWasShown n h) w)))"
    by (intro keeps_intros Suc assms)
  then show ?case by (simp add: keepsDepths_def split: sum.splits bool.splits)
qed

lemma keeps_processWillHide:
  assumes "\<And>k w. keepsDepths (h k w)"
  shows "keepsDepths (processWillHide n h w)"
proof (induction n arbitrary: w)
  case 0
  then show ?case by (simp add: keepsDepths_def)
next
  case (Suc n)
  have "keepsDepths (andThen (storeScrollPositions w)
            (andThen (callOnVisibleChildren (processWillHide n h) w)
               (andThen (notify h WillHide w)
                  (setShowing w False))))"
    by (intro keeps_intros Suc assms)
  then show ?case by (simp add: keepsDepths_def split: sum.splits bool.splits)
qed

lemma keeps_processOnResize:
  assumes "\<And>k w. keepsDepths (h k w)"
  shows "keepsDepths (processOnResize n h w)"
proof (induction n arbitrary: w)
  case 0
  then show ?case by (simp add: keepsDepths_def)
next
  case (Suc n)
  have "keepsDepths (andThen (notify h OnResize w)
                 (callOnVisibleChildren (processOnResize n h) w))"
    by (intro keeps_intros Suc assms)
  then show ?case by (simp add: keepsDepths_def split: sum.splits bool.splits)
qed

lemma keeps_doResize:
  assumes "\<And>k w. keepsDepths (h k w)"
  shows "keepsDepths (doResize h n w)"
proof -
  have "keepsDepths (callOnVisibleChildren (processOnResize n h) w)"
    by (intro keeps_intros keeps_processOnResize assms)
  then show ?thesis by (simp add: keepsDepths_def doResize_def split: sum.splits bool.splits)
qed

lemma keeps_doLayout:
  assumes "\<And>k w. keepsDepths (h k w)"
  shows "keepsDepths (doLayout h n w)"
proof -
  have "keepsDepths (andThen (notify h OnLayout w) (doResize h n w))"
    by (intro keeps_intros keeps_doResize assms)
  then show ?thesis by (simp add: keepsDepths_def doLayout_def)
qed


lemma keeps_foldVisible:
  "(\<And>c. keepsDepths (childConstraints c))
     \<Longrightarrow> keepsDepths (foldVisible childConstraints step w cs acc)"
proof (induction cs arbitrary: acc)
  case Nil
  then show ?case by (simp add: keepsDepths_def)
next
  case (Cons c cs)
  have a: "keepsDepths (childConstraints c)" using Cons.prems .
  have b: "\<And>acc. keepsDepths (foldVisible childConstraints step w cs acc)"
    using Cons by blast
  show ?case
  proof (rule keepsI)
    fix s
    show "depths (snd (foldVisible childConstraints step w (c # cs) acc s)) = depths s"
      using keepsD'[OF a] keepsD[OF b]
      by (cases "childConstraints c s") (auto split: sum.splits)
  qed
qed

lemma keeps_calculateConstraints:
  "(\<And>c. keepsDepths (childConstraints c)) \<Longrightarrow> keepsDepths (calculateConstraints childConstraints w)"
  using keeps_foldVisible[of childConstraints]
  by (auto simp: keepsDepths_def calculateConstraints_def split: wkind.splits)

lemma keeps_constraints: "keepsDepths (constraints n w)"
proof (induction n arbitrary: w)
  case 0
  then show ?case by (simp add: keepsDepths_def)
next
  case (Suc n)
  have c: "keepsDepths (calculateConstraints (constraints n) w)"
    by (rule keeps_calculateConstraints) (rule Suc)
  show ?case
  proof (rule keepsI)
    fix s
    show "depths (snd (constraints (Suc n) w s)) = depths s"
      using keepsD'[OF c, of s]
      by (cases "calculateConstraints (constraints n) w s")
         (auto split: option.splits sum.splits simp: depths_upd_other)
  qed
qed

lemma keeps_hasNonZeroConstraints: "keepsDepths (hasNonZeroConstraints n w)"
proof (rule keepsI)
  fix s :: state
  show "depths (snd (hasNonZeroConstraints n w s)) = depths s"
    using keepsD'[OF keeps_constraints, of n w s]
    by (cases "constraints n w s") (auto simp: hasNonZeroConstraints_def split: sum.splits)
qed

lemma keeps_invalidateConstraints:
  assumes "\<And>k w. keepsDepths (h k w)"
  shows "keepsDepths (invalidateConstraints n h w)"
proof (induction n arbitrary: w)
  case 0
  then show ?case by (simp add: keepsDepths_def)
next
  case (Suc n)
  show ?case
  proof (rule keepsI)
    fix s
    let ?s1 = "logEvent (Recomputed w)
                 (upd w (\<lambda>x. x\<lparr>invalidationsRequested := False, cachedConstraints := None\<rparr>) s)"
    have s1: "depths ?s1 = depths s" by (simp add: depths_logEvent depths_upd_other)
    obtain r s2 where c: "constraints (Suc n) w ?s1 = (r, s2)"
      by (cases "constraints (Suc n) w ?s1")
    have s2: "depths s2 = depths s"
      using keepsD'[OF keeps_constraints c] s1 by simp
    have l: "depths (snd (doLayout h (Suc n) w s2)) = depths s"
      using keepsD[OF keeps_doLayout, of h] assms s2 by simp
    have i: "\<And>p. depths (snd (invalidateConstraints n h p s2)) = depths s"
      using keepsD[OF Suc] s2 by simp
    show "depths (snd (invalidateConstraints (Suc n) h w s)) = depths s"
      using c s2 l i
      by (auto simp: Let_def depths_upd_other split: sum.splits option.splits
               simp del: constraints.simps)
  qed
qed

lemma keeps_invalidateParentOr:
  assumes "\<And>k w. keepsDepths (h k w)" and "keepsDepths otherwise"
  shows "keepsDepths (invalidateParentOr h n w otherwise)"
proof (rule keepsI)
  fix s :: state
  obtain r s' where c: "hasNonZeroConstraints n w s = (r, s')"
    by (cases "hasNonZeroConstraints n w s")
  have s': "depths s' = depths s" using keepsD'[OF keeps_hasNonZeroConstraints c] .
  show "depths (snd (invalidateParentOr h n w otherwise s)) = depths s"
    using c s' keepsD[OF keeps_invalidateConstraints, of h] assms(1) keepsD[OF assms(2)]
    by (auto simp: invalidateParentOr_def split: option.splits sum.splits bool.splits)
qed

lemma keeps_resumeInvalidations:
  assumes "\<And>k w. keepsDepths (h k w)"
  shows "keepsDepths (resumeInvalidations h n w)"
  using keepsD[OF keeps_invalidateConstraints, of h] assms
  by (auto simp: keepsDepths_def resumeInvalidations_def Let_def depths_upd_other)

lemma keeps_setMinimumSize:
  assumes "\<And>k w. keepsDepths (h k w)"
  shows "keepsDepths (setMinimumSize h n w a b)"
  using keepsD[OF keeps_invalidateConstraints, of h] assms
  by (auto simp: keepsDepths_def setMinimumSize_def depths_upd_other)

lemma keeps_incrementLoop: "keepsDepths (incrementLoop n count el)"
proof (induction n arbitrary: el)
  case 0
  then show ?case by (simp add: keepsDepths_def)
next
  case (Suc n)
  show ?case
    using Suc by (auto simp: keepsDepths_def depths_def split: option.splits)
qed

lemma keeps_decrementLoop: "keepsDepths (decrementLoop n count el)"
proof (induction n arbitrary: el)
  case 0
  then show ?case by (simp add: keepsDepths_def)
next
  case (Suc n)
  show ?case
    using Suc by (auto simp: keepsDepths_def depths_def split: option.splits)
qed

lemma keeps_counters:
  "keepsDepths (incrementWidgetCounter n pe el)" "keepsDepths (decrementWidgetCounter n pe el)"
  using keeps_incrementLoop keeps_decrementLoop
  by (auto simp: keepsDepths_def incrementWidgetCounter_def decrementWidgetCounter_def)

lemma keeps_removeFromParent: "keepsDepths (removeFromParent n parentElem el)"
proof (cases parentElem)
  case None
  then show ?thesis by (simp add: removeFromParent_def keepsDepths_def)
next
  case (Some pe)
  have "keepsDepths (andThen (decrementWidgetCounter n pe el) (originalRemoveChild pe el))"
    by (intro keeps_intros keeps_counters)
  with Some show ?thesis by (simp add: removeFromParent_def keepsDepths_def)
qed

lemma keeps_hideWidgetInternal:
  assumes "\<And>k w. keepsDepths (h k w)"
  shows "keepsDepths (hideWidgetInternal h n w removeFromDOM)"
proof (rule keepsI)
  fix s0 :: state
  let ?s1 = "upd w (\<lambda>x. x\<lparr>visibleInternal := False\<rparr>) s0"
  let ?el = "element (widgets ?s1 w)"
  let ?body = "andThen (\<lambda>s. if parentIsShowing s w then processWillHide n h w s else (None, s))
           (andThen
              (\<lambda>s. if removeFromDOM
                    then andThen (removeFromParent n (parentElement ?s1 ?el) ?el) (callHook h OnDetach w) s
                    else (None, s\<lparr>hiddenClass := (hiddenClass s)(?el := True)\<rparr>))
              (andThen (\<lambda>s. if parentIsShowing s w then processWasHidden n w s else (None, s))
                 (invalidateParentOr h n w skip)))"
  have hid: "keepsDepths (\<lambda>s. (None::error option, s\<lparr>hiddenClass := (hiddenClass s)(?el := True)\<rparr>))"
    by (simp add: keepsDepths_def depths_def)
  have "keepsDepths ?body"
    by (intro keeps_intros keeps_processWillHide keeps_processWasHidden keeps_removeFromParent
          keeps_invalidateParentOr assms hid)
  then have "depths (snd (?body ?s1)) = depths ?s1" by (rule keepsD)
  then show "depths (snd (hideWidgetInternal h n w removeFromDOM s0)) = depths s0"
    by (simp add: hideWidgetInternal_def Let_def depths_upd_other)
qed

lemma keeps_hideWidget:
  assumes "\<And>k w. keepsDepths (h k w)"
  shows "keepsDepths (hideWidget h n w)"
  using keepsD[OF keeps_hideWidgetInternal, of h] assms
  by (auto simp: keepsDepths_def hideWidget_def)

lemma keeps_unlinkFromParent:
  assumes "\<And>k w. keepsDepths (h k w)"
  shows "keepsDepths (unlinkFromParent h w)"
proof (rule keepsI)
  fix s :: state
  show "depths (snd (unlinkFromParent h w s)) = depths s"
  proof (cases "parentWidgetInternal (widgets s w)")
    case None
    then show ?thesis by (simp add: unlinkFromParent_def assert_def)
  next
    case (Some p)
    let ?body = "andThen (assert (w \<in> set (childrenInternal (widgets s p)))
                     ''Attempt to remove non-child widget'')
            (andThen
               (\<lambda>s. (None,
                  upd p (\<lambda>x. x\<lparr>defaultFocusedChild :=
                                  (if defaultFocusedChild x = Some w then None
                                   else defaultFocusedChild x)\<rparr>)
                    (upd p (\<lambda>x. x\<lparr>childrenInternal := remove1 w (childrenInternal x)\<rparr>) s)))
               (andThen (callHook h (ChildWasDetached w) p)
                  (\<lambda>s. (None, upd w (\<lambda>x. x\<lparr>parentWidgetInternal := None\<rparr>) s))))"
    have a: "keepsDepths (\<lambda>s. (None :: error option,
                  upd p (\<lambda>x. x\<lparr>defaultFocusedChild :=
                                  (if defaultFocusedChild x = Some w then None
                                   else defaultFocusedChild x)\<rparr>)
                    (upd p (\<lambda>x. x\<lparr>childrenInternal := remove1 w (childrenInternal x)\<rparr>) s)))"
      by (simp add: keepsDepths_def depths_upd_other)
    have b: "keepsDepths (\<lambda>s. (None :: error option, upd w (\<lambda>x. x\<lparr>parentWidgetInternal := None\<rparr>) s))"
      by (simp add: keepsDepths_def depths_upd_other)
    have "keepsDepths ?body"
      by (intro keeps_intros a b assms)
    then have "depths (snd (?body s)) = depths s" by (rule keepsD)
    with Some show ?thesis by (simp add: unlinkFromParent_def)
  qed
qed

lemma keeps_detach:
  assumes "\<And>k w. keepsDepths (h k w)"
  shows "keepsDepths (detach h n w ov)"
proof (rule keepsI)
  fix s :: state
  have "\<And>r. keepsDepths (andThen
               (if visibleInternal (widgets s w) then hideWidgetInternal h n w r
                else if r
                     then removeFromParent n (parentElement s (element (widgets s w)))
                            (element (widgets s w))
                     else skip)
               (unlinkFromParent h w))"
    by (intro keeps_intros keeps_hideWidgetInternal keeps_removeFromParent keeps_unlinkFromParent assms)
  then show "depths (snd (detach h n w ov s)) = depths s"
    by (auto simp: detach_def keepsDepths_def split: sum.splits)
qed

lemma keeps_attach:
  assumes "\<And>k w. keepsDepths (h k w)"
  shows "keepsDepths (attach h n w pw)"
proof (rule keepsI)
  fix s :: state
  have a: "keepsDepths (\<lambda>s. (None :: error option,
                upd w (\<lambda>x. x\<lparr>isRoot := False\<rparr>)
                  (upd pw (\<lambda>x. x\<lparr>childrenInternal := childrenInternal x @ [w]\<rparr>)
                     (upd w (\<lambda>x. x\<lparr>parentWidgetInternal := Some pw\<rparr>) s))))"
    by (simp add: keepsDepths_def depths_upd_other)
  have "keepsDepths (andThen
             (if parentWidgetInternal (widgets s w) \<noteq> None then detach h n w False else skip)
             (\<lambda>s. (None,
                upd w (\<lambda>x. x\<lparr>isRoot := False\<rparr>)
                  (upd pw (\<lambda>x. x\<lparr>childrenInternal := childrenInternal x @ [w]\<rparr>)
                     (upd w (\<lambda>x. x\<lparr>parentWidgetInternal := Some pw\<rparr>) s)))))"
    by (intro keeps_intros keeps_detach a assms)
  then show "depths (snd (attach h n w pw s)) = depths s"
    by (auto simp: attach_def keepsDepths_def)
qed

lemma keeps_reparent: "keepsDepths (reparent n w pe ib)"
proof (rule keepsI)
  fix s :: state
  have "keepsDepths (andThen
             (if \<not> externallyManaged (widgets s w) then incrementWidgetCounter n pe (element (widgets s w))
              else skip)
             (case ib of
                Some r \<Rightarrow> originalInsertBefore n pe (element (widgets s w)) (Some r)
              | None \<Rightarrow> originalAppendChild n pe (element (widgets s w))))"
    by (cases ib) (auto intro!: keeps_intros keeps_counters)
  then show "depths (snd (reparent n w pe ib s)) = depths s"
    by (auto simp: reparent_def Let_def keepsDepths_def)
qed

lemma keeps_showWidgetInternal:
  assumes "\<And>k w. keepsDepths (h k w)"
  shows "keepsDepths (showWidgetInternal h n w pe ib)"
proof (rule keepsI)
  fix s :: state
  have a: "keepsDepths (\<lambda>s. (None :: error option, upd w (\<lambda>x. x\<lparr>visibleInternal := True\<rparr>) s))"
    by (simp add: keepsDepths_def depths_upd_other)
  have b: "keepsDepths (\<lambda>s. (None :: error option, s\<lparr>hiddenClass :=
                                  (hiddenClass s)(element (widgets s w) := False)\<rparr>))"
    by (simp add: keepsDepths_def depths_def)
  have body: "\<And>wasVisible. keepsDepths (andThen (\<lambda>s. (None, upd w (\<lambda>x. x\<lparr>visibleInternal := True\<rparr>) s))
                   (andThen
                      (\<lambda>s. if \<not> wasVisible \<and> parentIsShowing s w then processWillShow n w s
                            else (None, s))
                      (andThen
                         (\<lambda>s. (None, s\<lparr>hiddenClass :=
                                  (hiddenClass s)(element (widgets s w) := False)\<rparr>))
                         (andThen (reparent n w pe ib)
                            (andThen
                               (\<lambda>s. if \<not> wasVisible \<and> parentIsShowing s w
                                     then processWasShown n h w s
                                     else (None, s))
                               (invalidateParentOr h n w (processOnResize n h w)))))))"
    by (intro keeps_intros a b keeps_processWillShow keeps_reparent keeps_processWasShown
          keeps_invalidateParentOr keeps_processOnResize assms)
  have rest: "keepsDepths (\<lambda>s. let wasVisible = visibleInternal (widgets s w) in
               if wasVisible \<and> parentElement s (element (widgets s w)) = Some pe
               then (None, s)
               else
                 andThen (\<lambda>s. (None, upd w (\<lambda>x. x\<lparr>visibleInternal := True\<rparr>) s))
                   (andThen
                      (\<lambda>s. if \<not> wasVisible \<and> parentIsShowing s w then processWillShow n w s
                            else (None, s))
                      (andThen
                         (\<lambda>s. (None, s\<lparr>hiddenClass :=
                                  (hiddenClass s)(element (widgets s w) := False)\<rparr>))
                         (andThen (reparent n w pe ib)
                            (andThen
                               (\<lambda>s. if \<not> wasVisible \<and> parentIsShowing s w
                                     then processWasShown n h w s
                                     else (None, s))
                               (invalidateParentOr h n w (processOnResize n h w)))))) s)"
    using body by (simp add: keepsDepths_def Let_def)
  have "\<And>c m. keepsDepths (andThen (assert c m) (\<lambda>s. let wasVisible = visibleInternal (widgets s w) in
               if wasVisible \<and> parentElement s (element (widgets s w)) = Some pe
               then (None, s)
               else
                 andThen (\<lambda>s. (None, upd w (\<lambda>x. x\<lparr>visibleInternal := True\<rparr>) s))
                   (andThen
                      (\<lambda>s. if \<not> wasVisible \<and> parentIsShowing s w then processWillShow n w s
                            else (None, s))
                      (andThen
                         (\<lambda>s. (None, s\<lparr>hiddenClass :=
                                  (hiddenClass s)(element (widgets s w) := False)\<rparr>))
                         (andThen (reparent n w pe ib)
                            (andThen
                               (\<lambda>s. if \<not> wasVisible \<and> parentIsShowing s w
                                     then processWasShown n h w s
                                     else (None, s))
                               (invalidateParentOr h n w (processOnResize n h w)))))) s))"
    by (intro keeps_intros rest)
  then show "depths (snd (showWidgetInternal h n w pe ib s)) = depths s"
    by (auto simp: showWidgetInternal_def keepsDepths_def split: sum.splits)
qed

lemma keeps_showWidget:
  assumes "\<And>k w. keepsDepths (h k w)"
  shows "keepsDepths (showWidget h n w)"
  using keepsD[OF keeps_showWidgetInternal, of h] assms
  by (auto simp: keepsDepths_def showWidget_def split: option.splits)

lemma keeps_show_op:
  assumes "\<And>k w. keepsDepths (h k w)"
  shows "keepsDepths (show_op h n w pe ib)"
proof (rule keepsI)
  fix s :: state
  have "\<And>cw. keepsDepths (andThen (attach h n w cw) (showWidgetInternal h n w pe ib))"
    by (intro keeps_intros keeps_attach keeps_showWidgetInternal assms)
  then show "depths (snd (show_op h n w pe ib s)) = depths s"
    using keepsD[OF keeps_showWidgetInternal, of h] assms
    by (auto simp: show_op_def keepsDepths_def split: sum.splits)
qed

lemma keeps_perform:
  assumes "\<And>k w. keepsDepths (h k w)"
  shows "keepsDepths (perform h n op)"
proof (cases op)
  case (Show w pe before)
  have "keepsDepths (show_op h n w pe before)" by (rule keeps_show_op) (rule assms)
  with Show show ?thesis by (simp add: keepsDepths_def)
next
  case (ShowWidget w)
  have "keepsDepths (showWidget h n w)" by (rule keeps_showWidget) (rule assms)
  with ShowWidget show ?thesis by (simp add: keepsDepths_def)
next
  case (HideWidget w)
  have "keepsDepths (hideWidget h n w)" by (rule keeps_hideWidget) (rule assms)
  with HideWidget show ?thesis by (simp add: keepsDepths_def)
next
  case (Detach w ov)
  have "keepsDepths (detach h n w ov)" by (rule keeps_detach) (rule assms)
  with Detach show ?thesis by (simp add: keepsDepths_def)
next
  case (MarkAsRoot w)
  with keeps_small(9)[of w] show ?thesis by (simp add: keepsDepths_def)
next
  case (MarkAsExternallyManaged w)
  with keeps_small(11)[of w] show ?thesis by (simp add: keepsDepths_def)
next
  case (SetHideOnDetach w)
  with keeps_small(10)[of w] show ?thesis by (simp add: keepsDepths_def)
next
  case (DoLayout w)
  have "keepsDepths (doLayout h n w)" by (rule keeps_doLayout) (rule assms)
  with DoLayout show ?thesis by (simp add: keepsDepths_def)
next
  case (DoResize w)
  have "keepsDepths (doResize h n w)" by (rule keeps_doResize) (rule assms)
  with DoResize show ?thesis by (simp add: keepsDepths_def)
next
  case (SetMinimumSize w a b)
  have "keepsDepths (setMinimumSize h n w a b)" by (rule keeps_setMinimumSize) (rule assms)
  with SetMinimumSize show ?thesis by (simp add: keepsDepths_def)
next
  case (SuspendInvalidations w)
  with keeps_small(4)[of w] show ?thesis by (simp add: keepsDepths_def)
next
  case (ResumeInvalidations w)
  have "keepsDepths (resumeInvalidations h n w)" by (rule keeps_resumeInvalidations) (rule assms)
  with ResumeInvalidations show ?thesis by (simp add: keepsDepths_def)
next
  case (InvalidateConstraints w)
  have "keepsDepths (invalidateConstraints n h w)" by (rule keeps_invalidateConstraints) (rule assms)
  with InvalidateConstraints show ?thesis by (simp add: keepsDepths_def)
qed

lemma inNotification_True_depth:
  "inNotification m s v = Inr True \<Longrightarrow> \<exists>u. depths s u \<noteq> 0"
proof (induction m arbitrary: v)
  case 0
  then show ?case by simp
next
  case (Suc m)
  show ?case
  proof (cases "notificationDepth (widgets s v) \<noteq> 0")
    case True
    then have "depths s v \<noteq> 0" by (simp add: depths_def)
    then show ?thesis by blast
  next
    case False
    with Suc.prems obtain p where "inNotification m s p = Inr True"
      by (auto split: option.splits)
    then show ?thesis by (rule Suc.IH)
  qed
qed

text \<open>
  C10. Hooks leave the notification depths as they find them (the field is private to
  \<open>Widget\<close>). Then \<open>notify\<close> leaves every widget's depth as it was, whether the hook
  returns or throws, and so does every public operation, whether it completes or ends in
  an error; if all depths were 0 before the operation, no widget is in a notification
  after it.
\<close>

theorem notify_restores_depth:
  assumes "\<And>k v. keepsDepths (h k v)"
  shows "depths (snd (notify h k w s)) = depths s
         \<and> depths (snd (perform h n op s)) = depths s
         \<and> ((\<forall>v. depths s v = 0) \<longrightarrow>
              (\<forall>m v. inNotification m (snd (perform h n op s)) v \<noteq> Inr True))"
proof -
  have a: "depths (snd (notify h k w s)) = depths s"
    by (rule keepsD[OF keeps_notify]) (rule assms)
  have b: "depths (snd (perform h n op s)) = depths s"
    by (rule keepsD[OF keeps_perform]) (rule assms)
  have c: "(\<forall>v. depths s v = 0) \<longrightarrow>
              (\<forall>m v. inNotification m (snd (perform h n op s)) v \<noteq> Inr True)"
    using inNotification_True_depth[of _ "snd (perform h n op s)"] b by metis
  show ?thesis using a b c by blast
qed

theorem notify_restores_depth_witness:
  "fst (notify throwingHooks WasShown 1 twoWidgets) = Some (Error ''hook failed'')
   \<and> depths (snd (notify throwingHooks WasShown 1 twoWidgets)) = depths twoWidgets
   \<and> fst (perform throwingHooks enough (Show 1 100 None) twoWidgets) = Some (Error ''hook failed'')
   \<and> depths (snd (perform throwingHooks enough (Show 1 100 None) twoWidgets)) = depths twoWidgets
   \<and> (\<forall>m v. inNotification m (snd (perform throwingHooks enough (Show 1 100 None) twoWidgets)) v
              \<noteq> Inr True)"
proof -
  have k: "\<And>k v. keepsDepths (throwingHooks k v)"
    by (simp add: keepsDepths_def throwingHooks_def)
  have z: "\<forall>v. depths twoWidgets v = 0"
    by (simp add: depths_def scenario_defs model_defs)
  have e1: "fst (notify throwingHooks WasShown 1 twoWidgets) = Some (Error ''hook failed'')"
    by (simp add: notify_def callHook_def throwingHooks_def split: prod.splits)
  have e2: "fst (perform throwingHooks enough (Show 1 100 None) twoWidgets)
              = Some (Error ''hook failed'')"
    by (simp add: scenario_defs model_defs)
  show ?thesis
    using notify_restores_depth[of throwingHooks WasShown 1 twoWidgets enough "Show 1 100 None", OF k]
      z e1 e2
    by blast
qed

subsection \<open>The order of the notification passes\<close>

lemma extendsD: "extendsTrace f \<Longrightarrow> trace (snd (f s)) = trace s @ eventsOf f s"
  unfolding extendsTrace_def eventsOf_def
proof -
  assume "\<forall>s. \<exists>t. trace (snd (f s)) = trace s @ t"
  then obtain t where "trace (snd (f s)) = trace s @ t" by blast
  then show "trace (snd (f s)) = trace s @ drop (length (trace s)) (trace (snd (f s)))" by simp
qed

lemma extendsI: "(\<And>s. \<exists>t. trace (snd (f s)) = trace s @ t) \<Longrightarrow> extendsTrace f"
  by (simp add: extendsTrace_def)

lemma extends_andThen: "extendsTrace f \<Longrightarrow> extendsTrace g \<Longrightarrow> extendsTrace (andThen f g)"
proof (rule extendsI)
  fix s
  assume f: "extendsTrace f" and g: "extendsTrace g"
  obtain r s1 where fs: "f s = (r, s1)" by (cases "f s")
  have 1: "trace s1 = trace s @ eventsOf f s" using extendsD[OF f, of s] fs by simp
  have 2: "trace (snd (g s1)) = trace s1 @ eventsOf g s1" by (rule extendsD[OF g])
  show "\<exists>t. trace (snd (andThen f g s)) = trace s @ t"
    using fs 1 2 by (cases r) (auto simp: andThen_def)
qed

lemma eventsOf_andThen:
  assumes "extendsTrace f" and "extendsTrace g" and "f s = (None, s1)"
  shows "eventsOf (andThen f g) s = eventsOf f s @ eventsOf g s1"
proof -
  have 1: "trace s1 = trace s @ eventsOf f s" using extendsD[OF assms(1), of s] assms(3) by simp
  have 2: "trace (snd (g s1)) = trace s1 @ eventsOf g s1" by (rule extendsD[OF assms(2)])
  have "trace (snd (andThen f g s)) = trace s @ eventsOf f s @ eventsOf g s1"
    using assms(3) 1 2 by (simp add: andThen_def)
  then show ?thesis by (simp add: eventsOf_def[of "andThen f g"])
qed

lemma extends_callOnEach:
  "(\<And>c. extendsTrace (method c)) \<Longrightarrow> extendsTrace (callOnEach method w cs)"
proof (induction cs)
  case Nil
  then show ?case by (simp add: extendsTrace_def)
next
  case (Cons c cs)
  have a: "extendsTrace (method c)" and b: "extendsTrace (callOnEach method w cs)"
    using Cons by auto
  show ?case
  proof (rule extendsI)
    fix s
    obtain r s1 where m: "method c s = (r, s1)" by (cases "method c s")
    have 1: "trace s1 = trace s @ eventsOf (method c) s" using extendsD[OF a, of s] m by simp
    have 2: "\<And>s. trace (snd (callOnEach method w cs s)) = trace s @ eventsOf (callOnEach method w cs) s"
      by (rule extendsD[OF b])
    show "\<exists>t. trace (snd (callOnEach method w (c # cs) s)) = trace s @ t"
      using m 1 2 by (cases r) auto
  qed
qed

lemma extends_callOnVisibleChildren:
  "(\<And>c. extendsTrace (method c)) \<Longrightarrow> extendsTrace (callOnVisibleChildren method w)"
  using extends_callOnEach[of "method" w] by (auto simp: extendsTrace_def callOnVisibleChildren_def)

lemma extends_notify:
  assumes "\<And>k v. extendsTrace (h k v)"
  shows "extendsTrace (notify h k w)"
proof (rule extendsI)
  fix s :: state
  let ?s1 = "logEvent (Called k w) (upd w (\<lambda>x. x\<lparr>notificationDepth := notificationDepth x + 1\<rparr>) s)"
  have "trace (snd (h k w ?s1)) = trace ?s1 @ eventsOf (h k w) ?s1"
    by (rule extendsD[OF assms])
  then show "\<exists>t. trace (snd (notify h k w s)) = trace s @ t"
    by (cases "h k w ?s1") (auto simp: notify_def callHook_def upd_def logEvent_def)
qed

lemma notify_first_event:
  assumes "\<And>k v. extendsTrace (h k v)"
  shows "\<exists>t. eventsOf (notify h k w) s = Called k w # t"
proof -
  let ?s1 = "logEvent (Called k w) (upd w (\<lambda>x. x\<lparr>notificationDepth := notificationDepth x + 1\<rparr>) s)"
  have "trace (snd (h k w ?s1)) = trace ?s1 @ eventsOf (h k w) ?s1"
    by (rule extendsD[OF assms])
  then show ?thesis
    by (cases "h k w ?s1") (auto simp: eventsOf_def[of "notify h k w"] notify_def callHook_def upd_def logEvent_def)
qed

lemma extends_small:
  "extendsTrace (setShowing w b)"
  "extendsTrace (storeScrollPositions w)"
  "extendsTrace (restoreScrollPositions w)"
  by (auto simp: extendsTrace_def setShowing_def storeScrollPositions_def
        restoreScrollPositions_def upd_def logEvent_def Let_def split: option.splits)

lemma eventsOf_small:
  "eventsOf (setShowing w b) s = [ShowingSet w b]"
  "eventsOf (storeScrollPositions w) s = []"
  "eventsOf (restoreScrollPositions w) s = []"
  by (auto simp: eventsOf_def setShowing_def storeScrollPositions_def
        restoreScrollPositions_def upd_def logEvent_def Let_def split: option.splits)

lemma extends_processWillShow: "extendsTrace (processWillShow n w)"
proof (induction n arbitrary: w)
  case 0
  then show ?case by (simp add: extendsTrace_def)
next
  case (Suc n)
  have "extendsTrace (andThen (callOnVisibleChildren (processWillShow n) w) (setShowing w True))"
    by (intro extends_andThen extends_callOnVisibleChildren extends_small Suc)
  then show ?case by (simp add: extendsTrace_def)
qed

lemma extends_processWasShown:
  assumes "\<And>k v. extendsTrace (h k v)"
  shows "extendsTrace (processWasShown n h w)"
proof (induction n arbitrary: w)
  case 0
  then show ?case by (simp add: extendsTrace_def)
next
  case (Suc n)
  have "extendsTrace (andThen (restoreScrollPositions w)
            (andThen (notify h WasShown w)
               (callOnVisibleChildren (processWasShown n h) w)))"
    by (intro extends_andThen extends_callOnVisibleChildren extends_small extends_notify Suc assms)
  then show ?case by (simp add: extendsTrace_def split: sum.splits bool.splits)
qed

lemma extends_processWillHide:
  assumes "\<And>k v. extendsTrace (h k v)"
  shows "extendsTrace (processWillHide n h w)"
proof (induction n arbitrary: w)
  case 0
  then show ?case by (simp add: extendsTrace_def)
next
  case (Suc n)
  have "extendsTrace (andThen (storeScrollPositions w)
            (andThen (callOnVisibleChildren (processWillHide n h) w)
               (andThen (notify h WillHide w)
                  (setShowing w False))))"
    by (intro extends_andThen extends_callOnVisibleChildren extends_small extends_notify Suc assms)
  then show ?case by (simp add: extendsTrace_def split: sum.splits bool.splits)
qed

text \<open>The will-show pass keeps the logical tree and logs the flag of every widget it runs on.\<close>

lemma sameTree_refl: "sameTree s s"
  by (simp add: sameTree_def)

lemma sameTree_trans: "sameTree s s1 \<Longrightarrow> sameTree s1 s2 \<Longrightarrow> sameTree s s2"
  by (simp add: sameTree_def)

lemma callOnEach_sameTree:
  "(\<And>c s. sameTree s (snd (method c s))) \<Longrightarrow> sameTree s (snd (callOnEach method w cs s))"
proof (induction cs arbitrary: s)
  case Nil
  then show ?case by (simp add: sameTree_refl)
next
  case (Cons c cs)
  obtain r s1 where m: "method c s = (r, s1)" by (cases "method c s")
  have 1: "sameTree s s1" using Cons.prems[of s c] m by simp
  have 2: "sameTree s1 (snd (callOnEach method w cs s1))" by (rule Cons.IH[OF Cons.prems])
  have 3: "sameTree s (snd (callOnEach method w cs s))" by (rule Cons.IH[OF Cons.prems])
  show ?case using m 1 2 3 sameTree_trans[OF 1 2] by (cases r) (auto simp: sameTree_refl)
qed

lemma processWillShow_sameTree: "sameTree s (snd (processWillShow n w s))"
proof (induction n arbitrary: w s)
  case 0
  then show ?case by (simp add: sameTree_refl)
next
  case (Suc n)
  have c: "sameTree s (snd (callOnVisibleChildren (processWillShow n) w s))"
    unfolding callOnVisibleChildren_def by (rule callOnEach_sameTree) (rule Suc)
  then show ?case
    by (cases "callOnVisibleChildren (processWillShow n) w s")
       (auto simp: andThen_def setShowing_def sameTree_def upd_def logEvent_def split: option.splits)
qed

lemma processWillShow_flag_event:
  "processWillShow n c s = (None, s') \<Longrightarrow> ShowingSet c True \<in> set (eventsOf (processWillShow n c) s)"
proof (cases n)
  case 0
  assume "processWillShow n c s = (None, s')"
  with 0 show ?thesis by simp
next
  case (Suc m)
  assume ok: "processWillShow n c s = (None, s')"
  let ?f = "callOnVisibleChildren (processWillShow m) c"
  obtain r s1 where f: "?f s = (r, s1)" by (cases "?f s")
  with ok Suc have r: "r = None" by (cases r) (auto simp: andThen_def)
  have e: "extendsTrace ?f" by (intro extends_callOnVisibleChildren extends_processWillShow)
  have "eventsOf (andThen ?f (setShowing c True)) s = eventsOf ?f s @ eventsOf (setShowing c True) s1"
    using eventsOf_andThen[OF e extends_small(1)] f r by blast
  then show ?thesis using Suc by (simp add: eventsOf_small eventsOf_def[of "processWillShow (Suc m) c"] eventsOf_def[of "andThen ?f (setShowing c True)"])
qed

lemma callOnEach_willShow_events:
  "callOnEach (processWillShow n) w cs s = (None, s') \<Longrightarrow> c \<in> set cs
    \<Longrightarrow> parentWidgetInternal (widgets s c) = Some w \<Longrightarrow> visibleInternal (widgets s c)
    \<Longrightarrow> ShowingSet c True \<in> set (eventsOf (callOnEach (processWillShow n) w cs) s)"
proof (induction cs arbitrary: s)
  case Nil
  then show ?case by simp
next
  case (Cons d ds)
  let ?rest = "callOnEach (processWillShow n) w ds"
  have er: "extendsTrace ?rest" by (intro extends_callOnEach extends_processWillShow)
  show ?case
  proof (cases "parentWidgetInternal (widgets s d) = Some w \<and> visibleInternal (widgets s d)")
    case False
    then have eq: "callOnEach (processWillShow n) w (d # ds) s = ?rest s" by auto
    from False Cons.prems have "c \<in> set ds" by auto
    then have "ShowingSet c True \<in> set (eventsOf ?rest s)"
      using Cons.IH[of s] Cons.prems eq by simp
    then show ?thesis using eq by (simp add: eventsOf_def)
  next
    case True
    obtain r s1 where m: "processWillShow n d s = (r, s1)" by (cases "processWillShow n d s")
    with True Cons.prems(1) have r: "r = None" by (cases r) auto
    have rest: "?rest s1 = (None, s')" using True m r Cons.prems(1) by simp
    have t1: "trace s1 = trace s @ eventsOf (processWillShow n d) s"
      using extendsD[OF extends_processWillShow, of n d s] m by simp
    have t2: "trace s' = trace s1 @ eventsOf ?rest s1"
      using extendsD[OF er, of s1] rest by simp
    have all: "eventsOf (callOnEach (processWillShow n) w (d # ds)) s
                 = eventsOf (processWillShow n d) s @ eventsOf ?rest s1"
      using Cons.prems(1) t1 t2 by (simp add: eventsOf_def[of "callOnEach (processWillShow n) w (d # ds)"])
    show ?thesis
    proof (cases "c = d")
      case True
      then show ?thesis using processWillShow_flag_event[of n d s s1] m r all
        by (simp del: callOnEach.simps)
    next
      case False
      then have cin: "c \<in> set ds" using Cons.prems(2) by simp
      have st: "sameTree s s1" using processWillShow_sameTree[of s n d] m by simp
      have "ShowingSet c True \<in> set (eventsOf ?rest s1)"
        using Cons.IH[OF rest cin] Cons.prems(3,4) st by (simp add: sameTree_def)
      then show ?thesis using all by (simp del: callOnEach.simps)
    qed
  qed
qed


lemma eventsOf_cong: "f s = g s \<Longrightarrow> eventsOf f s = eventsOf g s"
  by (simp add: eventsOf_def)

lemma willShow_order:
  assumes "processWillShow (Suc n) w s = (None, s')"
  shows "eventsOf (processWillShow (Suc n) w) s
           = eventsOf (callOnVisibleChildren (processWillShow n) w) s @ [ShowingSet w True]"
    and "\<forall>c\<in>set (childrenInternal (widgets s w)).
           parentWidgetInternal (widgets s c) = Some w \<and> visibleInternal (widgets s c) \<longrightarrow>
           ShowingSet c True \<in> set (eventsOf (callOnVisibleChildren (processWillShow n) w) s)"
proof -
  let ?f = "callOnVisibleChildren (processWillShow n) w"
  obtain r s1 where f: "?f s = (r, s1)" by (cases "?f s")
  with assms have r: "r = None" by (cases r) (auto simp: andThen_def)
  have e: "extendsTrace ?f" by (intro extends_callOnVisibleChildren extends_processWillShow)
  have "eventsOf (andThen ?f (setShowing w True)) s = eventsOf ?f s @ eventsOf (setShowing w True) s1"
    using eventsOf_andThen[OF e extends_small(1)] f r by blast
  moreover have "eventsOf (processWillShow (Suc n) w) s = eventsOf (andThen ?f (setShowing w True)) s"
    by (rule eventsOf_cong) simp
  ultimately show "eventsOf (processWillShow (Suc n) w) s = eventsOf ?f s @ [ShowingSet w True]"
    by (simp add: eventsOf_small)
  have ok: "callOnEach (processWillShow n) w (childrenInternal (widgets s w)) s = (None, s1)"
    using f r by (simp add: callOnVisibleChildren_def)
  have same: "eventsOf ?f s = eventsOf (callOnEach (processWillShow n) w (childrenInternal (widgets s w))) s"
    by (rule eventsOf_cong) (simp add: callOnVisibleChildren_def)
  show "\<forall>c\<in>set (childrenInternal (widgets s w)).
           parentWidgetInternal (widgets s c) = Some w \<and> visibleInternal (widgets s c) \<longrightarrow>
           ShowingSet c True \<in> set (eventsOf ?f s)"
    using callOnEach_willShow_events[OF ok] same by auto
qed

lemma wasShown_order:
  assumes hooks: "\<And>k v. extendsTrace (h k v)"
    and guard: "inNotification (Suc n) s w = Inr False"
    and hook: "notify h WasShown w (snd (restoreScrollPositions w s)) = (None, sA)"
  shows "eventsOf (processWasShown (Suc n) h w) s
           = eventsOf (notify h WasShown w) (snd (restoreScrollPositions w s))
             @ eventsOf (callOnVisibleChildren (processWasShown n h) w) sA"
proof -
  let ?r = "restoreScrollPositions w"
  let ?c = "callOnVisibleChildren (processWasShown n h) w"
  have r: "?r s = (None, snd (?r s))"
    by (simp add: restoreScrollPositions_def Let_def split: option.splits)
  have ec: "extendsTrace ?c"
    by (intro extends_callOnVisibleChildren extends_processWasShown hooks)
  have en: "extendsTrace (notify h WasShown w)" by (intro extends_notify hooks)
  have 1: "eventsOf (andThen (notify h WasShown w) ?c) (snd (?r s))
             = eventsOf (notify h WasShown w) (snd (?r s)) @ eventsOf ?c sA"
    by (rule eventsOf_andThen[OF en ec hook])
  have 2: "eventsOf (andThen ?r (andThen (notify h WasShown w) ?c)) s
             = eventsOf ?r s @ eventsOf (andThen (notify h WasShown w) ?c) (snd (?r s))"
    by (rule eventsOf_andThen[OF extends_small(3) extends_andThen[OF en ec] r])
  have 3: "eventsOf (processWasShown (Suc n) h w) s
             = eventsOf (andThen ?r (andThen (notify h WasShown w) ?c)) s"
    by (rule eventsOf_cong) (use guard in \<open>simp del: inNotification.simps\<close>)
  show ?thesis using 1 2 3 by (simp add: eventsOf_small)
qed

lemma willHide_order:
  assumes hooks: "\<And>k v. extendsTrace (h k v)"
    and guard: "inNotification (Suc n) s w = Inr False"
    and children: "callOnVisibleChildren (processWillHide n h) w (snd (storeScrollPositions w s))
                     = (None, sC)"
    and hook: "notify h WillHide w sC = (None, sD)"
  shows "eventsOf (processWillHide (Suc n) h w) s
           = eventsOf (callOnVisibleChildren (processWillHide n h) w) (snd (storeScrollPositions w s))
             @ eventsOf (notify h WillHide w) sC @ [ShowingSet w False]"
proof -
  let ?st = "storeScrollPositions w"
  let ?c = "callOnVisibleChildren (processWillHide n h) w"
  let ?nt = "notify h WillHide w"
  have st: "?st s = (None, snd (?st s))"
    by (simp add: storeScrollPositions_def Let_def)
  have ec: "extendsTrace ?c"
    by (intro extends_callOnVisibleChildren extends_processWillHide hooks)
  have en: "extendsTrace ?nt" by (intro extends_notify hooks)
  have 1: "eventsOf (andThen ?nt (setShowing w False)) sC = eventsOf ?nt sC @ [ShowingSet w False]"
    using eventsOf_andThen[OF en extends_small(1) hook] by (simp add: eventsOf_small)
  have 2: "eventsOf (andThen ?c (andThen ?nt (setShowing w False))) (snd (?st s))
             = eventsOf ?c (snd (?st s)) @ eventsOf (andThen ?nt (setShowing w False)) sC"
    by (rule eventsOf_andThen[OF ec extends_andThen[OF en extends_small(1)] children])
  have 3: "eventsOf (andThen ?st (andThen ?c (andThen ?nt (setShowing w False)))) s
             = eventsOf ?st s @ eventsOf (andThen ?c (andThen ?nt (setShowing w False))) (snd (?st s))"
    by (rule eventsOf_andThen[OF extends_small(2)
          extends_andThen[OF ec extends_andThen[OF en extends_small(1)]] st])
  have 4: "eventsOf (processWillHide (Suc n) h w) s
             = eventsOf (andThen ?st (andThen ?c (andThen ?nt (setShowing w False)))) s"
    by (rule eventsOf_cong) (use guard in \<open>simp del: inNotification.simps\<close>)
  show ?thesis using 1 2 3 4 by (simp add: eventsOf_small)
qed

lemma rootWithChild_tree0:
  "childrenInternal (widgets rootWithChild 1) = [2]"
  "childrenInternal (widgets rootWithChild 2) = []"
  "notificationDepth (widgets rootWithChild 1) = 0"
  "notificationDepth (widgets rootWithChild 2) = 0"
  "parentWidgetInternal (widgets rootWithChild 1) = None"
  "element (widgets rootWithChild 1) = 10"
  "storedScrollPositions rootWithChild 10 = None"
  "storedScrollPositions rootWithChild 20 = None"
  by (simp_all add: scenario_defs model_defs)

lemmas rootWithChild_tree = rootWithChild_tree0 rootWithChild_tree0[unfolded One_nat_def]

lemmas pass_defs = enough_def eventsOf_def callOnVisibleChildren_def andThen_def
  setShowing_def upd_def logEvent_def notify_def callHook_def noHooks_def
  storeScrollPositions_def restoreScrollPositions_def Let_def

theorem willShow_children_first:
  "fst (processWillShow enough 1 rootWithChild) = None
   \<and> eventsOf (processWillShow enough 1) rootWithChild = [ShowingSet 2 True, ShowingSet 1 True]"
  by (simp add: pass_defs rootWithChild_facts rootWithChild_tree)

text \<open>
  C5, as amended. The will-show pass runs on the visible children of a widget first and
  sets the widget's own showing flag last, after the flag of every such child. The
  was-shown pass calls the widget's hook first and recurses into the children after it.
  The will-hide pass recurses into the children first and calls the widget's hook after
  them, then clears the flag. (Hooks only add to the trace.)
\<close>

theorem pass_order:
  assumes hooks: "\<And>k v. extendsTrace (h k v)"
  shows "(processWillShow (Suc n) w s = (None, s') \<longrightarrow>
            eventsOf (processWillShow (Suc n) w) s
              = eventsOf (callOnVisibleChildren (processWillShow n) w) s @ [ShowingSet w True]
            \<and> (\<forall>c\<in>set (childrenInternal (widgets s w)).
                 parentWidgetInternal (widgets s c) = Some w \<and> visibleInternal (widgets s c) \<longrightarrow>
                 ShowingSet c True \<in> set (eventsOf (callOnVisibleChildren (processWillShow n) w) s)))
       \<and> (inNotification (Suc n) s w = Inr False
            \<and> notify h WasShown w (snd (restoreScrollPositions w s)) = (None, sA) \<longrightarrow>
            eventsOf (processWasShown (Suc n) h w) s
              = eventsOf (notify h WasShown w) (snd (restoreScrollPositions w s))
                @ eventsOf (callOnVisibleChildren (processWasShown n h) w) sA)
       \<and> (inNotification (Suc n) s w = Inr False
            \<and> callOnVisibleChildren (processWillHide n h) w (snd (storeScrollPositions w s))
                = (None, sC)
            \<and> notify h WillHide w sC = (None, sD) \<longrightarrow>
            eventsOf (processWillHide (Suc n) h w) s
              = eventsOf (callOnVisibleChildren (processWillHide n h) w)
                  (snd (storeScrollPositions w s))
                @ eventsOf (notify h WillHide w) sC @ [ShowingSet w False])
       \<and> (\<exists>t. eventsOf (notify h k w) s = Called k w # t)"
  using willShow_order[where n = n and w = w and s = s and s' = s']
    wasShown_order[where h = h and n = n and w = w and s = s and sA = sA, OF hooks]
    willHide_order[where h = h and n = n and w = w and s = s and sC = sC and sD = sD, OF hooks]
    notify_first_event[where h = h and k = k and w = w and s = s, OF hooks]
  by blast

theorem pass_order_witness:
  "eventsOf (processWillShow enough 1) rootWithChild
     = eventsOf (callOnVisibleChildren (processWillShow (Suc (Suc (Suc 0)))) 1) rootWithChild
       @ [ShowingSet 1 True]
   \<and> ShowingSet 2 True
       \<in> set (eventsOf (callOnVisibleChildren (processWillShow (Suc (Suc (Suc 0)))) 1) rootWithChild)
   \<and> eventsOf (processWasShown enough noHooks 1) rootWithChild
       = [Called WasShown 1, Called WasShown 2]
   \<and> eventsOf (processWillHide enough noHooks 1) rootWithChild
       = [Called WillHide 2, ShowingSet 2 False, Called WillHide 1, ShowingSet 1 False]"
proof -
  let ?n = "Suc (Suc (Suc 0))"
  let ?sA = "snd (notify noHooks WasShown 1 (snd (restoreScrollPositions 1 rootWithChild)))"
  let ?sC = "snd (callOnVisibleChildren (processWillHide ?n noHooks) 1
                    (snd (storeScrollPositions 1 rootWithChild)))"
  let ?sD = "snd (notify noHooks WillHide 1 ?sC)"
  have h: "\<And>k v. extendsTrace (noHooks k v)"
    by (simp add: extendsTrace_def noHooks_def)
  note t = pass_order[where h = noHooks and n = ?n and w = 1 and s = rootWithChild
      and s' = "snd (processWillShow enough 1 rootWithChild)" and sA = ?sA and sC = ?sC
      and sD = ?sD and k = WasShown, OF h]
  have e: "enough = Suc ?n" by (simp add: enough_def)
  have p1: "processWillShow (Suc ?n) 1 rootWithChild
              = (None, snd (processWillShow enough 1 rootWithChild))"
    by (simp add: pass_defs rootWithChild_facts rootWithChild_tree)
  have c: "2 \<in> set (childrenInternal (widgets rootWithChild 1))
           \<and> parentWidgetInternal (widgets rootWithChild 2) = Some 1
           \<and> visibleInternal (widgets rootWithChild 2)"
    by (simp add: rootWithChild_facts rootWithChild_tree)
  have g: "inNotification (Suc ?n) rootWithChild 1 = Inr False"
    by (simp add: rootWithChild_tree)
  have p2: "notify noHooks WasShown 1 (snd (restoreScrollPositions 1 rootWithChild)) = (None, ?sA)"
    by (simp add: pass_defs)
  have p3: "callOnVisibleChildren (processWillHide ?n noHooks) 1
              (snd (storeScrollPositions 1 rootWithChild)) = (None, ?sC)"
    by (simp add: pass_defs rootWithChild_facts rootWithChild_tree)
  have p4: "notify noHooks WillHide 1 ?sC = (None, ?sD)"
    by (simp add: pass_defs)
  have a1: "eventsOf (processWillShow enough 1) rootWithChild
     = eventsOf (callOnVisibleChildren (processWillShow ?n) 1) rootWithChild @ [ShowingSet 1 True]"
    using t p1 unfolding e by blast
  have a2: "ShowingSet 2 True
       \<in> set (eventsOf (callOnVisibleChildren (processWillShow ?n) 1) rootWithChild)"
    using t p1 c by blast
  have a3: "eventsOf (processWasShown (Suc ?n) noHooks 1) rootWithChild
              = eventsOf (notify noHooks WasShown 1) (snd (restoreScrollPositions 1 rootWithChild))
                @ eventsOf (callOnVisibleChildren (processWasShown ?n noHooks) 1) ?sA"
    using t g p2 by blast
  have a4: "eventsOf (processWillHide (Suc ?n) noHooks 1) rootWithChild
              = eventsOf (callOnVisibleChildren (processWillHide ?n noHooks) 1)
                  (snd (storeScrollPositions 1 rootWithChild))
                @ eventsOf (notify noHooks WillHide 1) ?sC @ [ShowingSet 1 False]"
    using t g p3 p4 by blast
  have b3: "eventsOf (notify noHooks WasShown 1) (snd (restoreScrollPositions 1 rootWithChild))
                @ eventsOf (callOnVisibleChildren (processWasShown ?n noHooks) 1) ?sA
            = [Called WasShown 1, Called WasShown 2]"
    by (simp add: pass_defs rootWithChild_facts rootWithChild_tree)
  have b4: "eventsOf (callOnVisibleChildren (processWillHide ?n noHooks) 1)
                  (snd (storeScrollPositions 1 rootWithChild))
                @ eventsOf (notify noHooks WillHide 1) ?sC @ [ShowingSet 1 False]
            = [Called WillHide 2, ShowingSet 2 False, Called WillHide 1, ShowingSet 1 False]"
    by (simp add: pass_defs rootWithChild_facts rootWithChild_tree)
  show ?thesis
    using a1 a2 a3 a4 b3 b4 unfolding e by simp
qed

subsection \<open>The showing flag\<close>

text \<open>
  C1, on the code. Widget 1 is a root whose \<open>wasShown\<close> hides its visible child 2. Before
  \<open>show\<close> the flags of both widgets agree with the invariant. \<open>show\<close> of widget 1 completes,
  every notification depth is 0 again, and widget 2 is not visible but still showing:
  \<open>processWillHide\<close> returned at its guard, before clearing the flag that \<open>processWillShow\<close>
  had set.
\<close>

theorem hide_in_wasShown_leaves_showing:
  "showingConsistent rootWithChild 1 \<and> showingConsistent rootWithChild 2
   \<and> fst staleShowing = None
   \<and> (\<forall>v. notificationDepth (widgets (snd staleShowing) v) = 0)
   \<and> trace (snd staleShowing)
       = [ShowingSet 2 True, ShowingSet 1 True, Called WasShown 1, Called OnResize 1]
   \<and> \<not> visibleInternal (widgets (snd staleShowing) 2)
   \<and> isShowing (snd staleShowing) 2
   \<and> \<not> showingConsistent (snd staleShowing) 2"
  by (simp add: showingConsistent_def scenario_defs model_defs)

subsection \<open>The widget counter\<close>

text \<open>
  C2, on the code. Widget 2 is shown in the element 11 and then in the element 12, both
  inside the element 10 of its parent widget. After the first \<open>show\<close> the counters of 10
  and 11 are 1, the number of widget elements below them. The second \<open>show\<close> adds 1 along
  the new chain and subtracts nothing along the old one: the counter of 11 stays 1 with no
  widget element below it, and the counter of 10 is 2 with one widget element below it.
\<close>

theorem reparent_counts_twice:
  "fst shownInFirstPane = None
   \<and> counterOf (snd shownInFirstPane) 11 = 1
   \<and> widgetElementsBelow enough (snd shownInFirstPane) [10, 11, 12, 20] 11 = 1
   \<and> counterOf (snd shownInFirstPane) 10 = 1
   \<and> widgetElementsBelow enough (snd shownInFirstPane) [10, 11, 12, 20] 10 = 1
   \<and> fst movedToSecondPane = None
   \<and> parentElement (snd movedToSecondPane) 20 = Some 12
   \<and> counterOf (snd movedToSecondPane) 11 = 1
   \<and> widgetElementsBelow enough (snd movedToSecondPane) [10, 11, 12, 20] 11 = 0
   \<and> counterOf (snd movedToSecondPane) 10 = 2
   \<and> widgetElementsBelow enough (snd movedToSecondPane) [10, 11, 12, 20] 10 = 1"
  by (simp add: widgetElementsBelow_def isCountedWidgetElement_def isStrictlyBelow_def
        scenario_defs model_defs)

subsection \<open>Detaching a hidden widget with hideOnDetach\<close>

text \<open>
  C3, on the code. Widget 2 has \<open>hideOnDetach\<close> set and was hidden with \<open>hideWidget\<close>.
  \<open>detach()\<close> leaves its element in the DOM with the class \<open>hidden\<close> and calls no
  \<open>onDetach\<close>. \<open>detach(true)\<close> removes the element from the DOM, and calls no \<open>onDetach\<close>
  either: the branch for a widget that is not visible removes the element itself. From the
  visible widget, \<open>detach(true)\<close> goes through \<open>hideWidgetInternal\<close> and does call it.
\<close>

theorem detach_hidden_skips_onDetach:
  "hideOnDetach (widgets keeperHidden 2) \<and> \<not> visibleInternal (widgets keeperHidden 2)
   \<and> parentElement keeperHidden 20 = Some 10
   \<and> fst (detach noHooks enough 2 False keeperHidden) = None
   \<and> parentElement (snd (detach noHooks enough 2 False keeperHidden)) 20 = Some 10
   \<and> hiddenClass (snd (detach noHooks enough 2 False keeperHidden)) 20
   \<and> Called OnDetach 2 \<notin> set (trace (snd (detach noHooks enough 2 False keeperHidden)))
   \<and> fst (detach noHooks enough 2 True keeperHidden) = None
   \<and> parentElement (snd (detach noHooks enough 2 True keeperHidden)) 20 = None
   \<and> Called OnDetach 2 \<notin> set (trace (snd (detach noHooks enough 2 True keeperHidden)))
   \<and> fst (detach noHooks enough 2 True keeperShown) = None
   \<and> parentElement (snd (detach noHooks enough 2 True keeperShown)) 20 = None
   \<and> Called OnDetach 2 \<in> set (trace (snd (detach noHooks enough 2 True keeperShown)))"
  by (simp add: scenario_defs model_defs)

end
